theory Spec2Isabelle
  imports Complex_Main
begin

section \<open>slic: a declarative command-line argument parser\<close>

text \<open>
  A shallow embedding of \<^verbatim>\<open>include/slic.hpp\<close>. The header is a C++ template library:
  the options struct \<open>T\<close> and its static tuple \<open>T::Options\<close> are template arguments.
  Here the tuple is an ordinary list of declarations, a pointer to member is the number
  of the member, and the struct \<open>T\<close> is a function from member numbers to contents.
\<close>

subsection \<open>Strings (\<^verbatim>\<open>std::string_view\<close>)\<close>

text \<open>\<^verbatim>\<open>sv.find(c)\<close>: the position of the first \<open>c\<close>, \<open>npos\<close> is \<open>None\<close>.\<close>

fun find_char :: "string \<Rightarrow> char \<Rightarrow> nat option" where
  "find_char [] c = None"
| "find_char (x # xs) c = (if x = c then Some 0 else map_option Suc (find_char xs c))"

text \<open>\<^verbatim>\<open>sv.substr(pos, n)\<close> and \<^verbatim>\<open>sv.substr(pos)\<close>, for \<open>pos\<close> within the view.\<close>

definition substr :: "string \<Rightarrow> nat \<Rightarrow> nat \<Rightarrow> string" where
  "substr s pos n = take n (drop pos s)"

definition substr_from :: "string \<Rightarrow> nat \<Rightarrow> string" where
  "substr_from s pos = drop pos s"

text \<open>\<^verbatim>\<open>sv.starts_with(c)\<close>.\<close>

fun starts_with :: "string \<Rightarrow> char \<Rightarrow> bool" where
  "starts_with [] c = False"
| "starts_with (x # xs) c = (x = c)"

subsection \<open>Outcome of a parse\<close>

datatype ParseError =
  NoneE | MissingValue | InvalidValue | UnknownOption | MissingRequiredArg | TooManyArgs

record ParseResult =
  error :: ParseError
  ctx :: string

definition isOk :: "ParseResult \<Rightarrow> bool" where
  "isOk r = (error r = NoneE)"

definition success :: ParseResult where
  "success = \<lparr>error = NoneE, ctx = []\<rparr>"

definition failure :: "ParseError \<Rightarrow> string \<Rightarrow> ParseResult" where
  "failure err c = \<lparr>error = err, ctx = c\<rparr>"

subsection \<open>Field types and values\<close>

text \<open>
  The type of a bound member is \<open>Inner\<close> or \<^verbatim>\<open>std::optional<Inner>\<close>. The inner types
  modelled are \<^verbatim>\<open>bool\<close>, \<^verbatim>\<open>std::string_view\<close> and the arithmetic types. An integer type
  is given by its signedness and its width in bits (\<^verbatim>\<open>int\<close> is \<open>Integer True 32\<close>,
  \<^verbatim>\<open>unsigned int\<close> is \<open>Integer False 32\<close>, \<^verbatim>\<open>long\<close> is \<open>Integer True 64\<close> on the LP64
  platforms). A binary floating-point type is given by its precision \<open>p\<close> in bits and its
  largest exponent \<open>emax\<close>: \<^verbatim>\<open>float\<close> is \<open>Floating 24 127\<close> and \<^verbatim>\<open>double\<close> is
  \<open>Floating 53 1023\<close>, the formats binary32 and binary64 of IEEE 754.

  A floating-point value is infinite, not a number, or finite: \<open>Finite neg m e\<close> stands
  for the number \<open>m * 2 ^ e\<close>, negated when \<open>neg\<close> holds, with \<open>m < 2 ^ p\<close> and
  \<open>e \<le> emax - p + 1\<close> in a type of precision \<open>p\<close> and largest exponent \<open>emax\<close>.
\<close>

datatype inner_type = Bool | StringView | Integer bool nat | Floating nat int

datatype float_value = Finite bool int int | Infinity bool | NaN

datatype field_type = Direct inner_type | Optional inner_type

fun unwrap_optional :: "field_type \<Rightarrow> inner_type" where
  "unwrap_optional (Direct t) = t"
| "unwrap_optional (Optional t) = t"

fun is_optional :: "field_type \<Rightarrow> bool" where
  "is_optional (Direct t) = False"
| "is_optional (Optional t) = True"

datatype val = BoolV bool | StringV string | IntV int | FloatV float_value

subsection \<open>\<^verbatim>\<open>std::from_chars\<close> for integers, base 10\<close>

text \<open>
  Modelled from the C++ standard (\<^verbatim>\<open>[charconv.from.chars]\<close>): \<^verbatim>\<open>std::from_chars\<close> is a
  function of the standard library and not of the header. The pattern is an optional
  minus sign, accepted for a signed type only, followed by a non-empty run of decimal
  digits; no white space and no plus sign. The result has the number of characters
  that match the pattern (the offset of \<^verbatim>\<open>ptr\<close> from the start of the input), the error
  code and the value. With no match nothing is consumed and the code is
  \<open>invalid_argument\<close>; a match whose value the type cannot hold is consumed but gives
  \<open>result_out_of_range\<close>. In both cases \<^verbatim>\<open>value\<close> is left as it was, which is \<open>0\<close> in
  \<^verbatim>\<open>ValueParser\<close>.
\<close>

datatype errc = errc_ok | invalid_argument | result_out_of_range

definition is_digit :: "char \<Rightarrow> bool" where
  "is_digit c = (c \<in> set ''0123456789'')"

definition digit_val :: "char \<Rightarrow> int" where
  "digit_val c = int (of_char c) - 48"

fun digits_val :: "int \<Rightarrow> string \<Rightarrow> int" where
  "digits_val acc [] = acc"
| "digits_val acc (c # cs) = digits_val (acc * 10 + digit_val c) cs"

definition representable :: "bool \<Rightarrow> nat \<Rightarrow> int \<Rightarrow> bool" where
  "representable sg w v =
     (if sg then - (2 ^ (w - 1)) \<le> v \<and> v < 2 ^ (w - 1) else 0 \<le> v \<and> v < 2 ^ w)"

definition from_chars :: "bool \<Rightarrow> nat \<Rightarrow> string \<Rightarrow> nat \<times> errc \<times> int" where
  "from_chars sg w input =
     (let neg = (sg \<and> starts_with input CHR ''-'');
          body = (if neg then tl input else input);
          ds = takeWhile is_digit body;
          v = (if neg then - digits_val 0 ds else digits_val 0 ds);
          ptr = (if neg then 1 else 0) + length ds
      in if ds = [] then (0, invalid_argument, 0)
         else if representable sg w v then (ptr, errc_ok, v)
         else (ptr, result_out_of_range, 0))"

subsection \<open>\<^verbatim>\<open>std::from_chars\<close> for the floating-point types\<close>

text \<open>
  Modelled from the C++ standard (\<^verbatim>\<open>[charconv.from.chars]\<close>) as well, with the format
  \<^verbatim>\<open>std::chars_format::general\<close> that \<^verbatim>\<open>ValueParser\<close> leaves at its default. The pattern
  is the subject sequence of \<^verbatim>\<open>strtod\<close> in the C locale without the plus sign and without
  the hexadecimal form: an optional minus sign, and then either

    \<^item> a run of decimal digits that may contain one decimal point, with a digit before
      or after it, and optionally an exponent: \<^verbatim>\<open>e\<close> or \<^verbatim>\<open>E\<close>, an optional sign and at
      least one digit (an exponent with no digit is not part of the match); or
    \<^item> \<^verbatim>\<open>inf\<close> or \<^verbatim>\<open>infinity\<close>, or \<^verbatim>\<open>nan\<close> optionally followed by a parenthesised run of
      digits, letters and underscores, the letters in either case.

  No white space is skipped. The value of a decimal match with the digits \<open>D\<close> (the point
  removed) and the decimal exponent \<open>x\<close> is the number \<open>D * 10 ^ x\<close> rounded to the nearest
  value of the type, a tie going to the even significand: \<open>round_nearest\<close> computes it
  exactly, on integers, from the quotient \<open>N / M\<close> of that number. The largest exponent
  \<open>k\<close> with \<open>2 ^ k \<le> N / M\<close> is found from the bit lengths of \<open>N\<close> and \<open>M\<close>; the
  significand is the quotient scaled to \<open>p\<close> bits, or to fewer in the subnormal range.
  A number too large for the type, or one other than zero that rounds to zero, gives
  \<open>result_out_of_range\<close>; as for the integers the value is then left as it was.
  The lemmas \<open>round_nearest_Some\<close> and \<open>round_nearest_None\<close> relate the result to the
  decimal number as a real number.
\<close>

function bit_length :: "int \<Rightarrow> nat" where
  "bit_length n = (if n \<le> 0 then 0 else Suc (bit_length (n div 2)))"
  by pat_completeness auto
termination
  by (relation "measure nat") auto

declare bit_length.simps [simp del]

definition scaled_ge :: "int \<Rightarrow> int \<Rightarrow> int \<Rightarrow> bool" where
  "scaled_ge N M k = (if 0 \<le> k then M * 2 ^ nat k \<le> N else M \<le> N * 2 ^ nat (- k))"

definition round_nearest :: "nat \<Rightarrow> int \<Rightarrow> int \<Rightarrow> int \<Rightarrow> (int \<times> int) option" where
  "round_nearest p emax D x =
     (if D = 0 then Some (0, 0)
      else
        let N = (if 0 \<le> x then D * 10 ^ nat x else D);
            M = (if 0 \<le> x then 1 else 10 ^ nat (- x));
            k0 = int (bit_length N) - int (bit_length M);
            k = (if scaled_ge N M k0 then k0 else k0 - 1);
            e = max (k - int p + 1) (1 - emax - int p + 1);
            num = (if 0 \<le> e then N else N * 2 ^ nat (- e));
            den = (if 0 \<le> e then M * 2 ^ nat e else M);
            m0 = num div den;
            r = num mod den;
            m = (if den < 2 * r \<or> (2 * r = den \<and> odd m0) then m0 + 1 else m0);
            m' = (if m = 2 ^ p then 2 ^ (p - 1) else m);
            e' = (if m = 2 ^ p then e + 1 else e)
        in if m' = 0 \<or> emax - int p + 1 < e' then None else Some (m', e'))"

definition to_lower :: "char \<Rightarrow> char" where
  "to_lower c =
     (case map_of (zip ''ABCDEFGHIJKLMNOPQRSTUVWXYZ'' ''abcdefghijklmnopqrstuvwxyz'') c of
        Some l \<Rightarrow> l
      | None \<Rightarrow> c)"

definition is_nchar :: "char \<Rightarrow> bool" where
  "is_nchar c =
     (c \<in> set ''0123456789abcdefghijklmnopqrstuvwxyzABCDEFGHIJKLMNOPQRSTUVWXYZ_'')"

definition nan_suffix :: "string \<Rightarrow> nat" where
  "nan_suffix s =
     (case s of
        [] \<Rightarrow> 0
      | c # cs \<Rightarrow>
          if c = CHR ''('' \<and> starts_with (dropWhile is_nchar cs) CHR '')''
          then length (takeWhile is_nchar cs) + 2 else 0)"

definition special_pattern :: "bool \<Rightarrow> string \<Rightarrow> (nat \<times> float_value) option" where
  "special_pattern neg body =
     (if map to_lower (take 8 body) = ''infinity'' then Some (8, Infinity neg)
      else if map to_lower (take 3 body) = ''inf'' then Some (3, Infinity neg)
      else if map to_lower (take 3 body) = ''nan'' then Some (3 + nan_suffix (drop 3 body), NaN)
      else None)"

definition exponent_pattern :: "string \<Rightarrow> nat \<times> int" where
  "exponent_pattern r =
     (case r of
        [] \<Rightarrow> (0, 0)
      | c # cs \<Rightarrow>
          if c = CHR ''e'' \<or> c = CHR ''E'' then
            (let sg = (case cs of
                         [] \<Rightarrow> []
                       | s # _ \<Rightarrow> if s = CHR ''+'' \<or> s = CHR ''-'' then [s] else []);
                 ds = takeWhile is_digit (drop (length sg) cs)
             in if ds = [] then (0, 0)
                else (1 + length sg + length ds,
                      if sg = ''-'' then - digits_val 0 ds else digits_val 0 ds))
          else (0, 0))"

definition decimal_pattern :: "string \<Rightarrow> (nat \<times> int \<times> int) option" where
  "decimal_pattern body =
     (let d1 = takeWhile is_digit body;
          r1 = dropWhile is_digit body;
          point = starts_with r1 CHR ''.'';
          d2 = (if point then takeWhile is_digit (tl r1) else []);
          r2 = (if point then dropWhile is_digit (tl r1) else r1)
      in if d1 @ d2 = [] then None
         else
           (case exponent_pattern r2 of
              (n, ex) \<Rightarrow>
                Some (length d1 + (if point then 1 else 0) + length d2 + n,
                      digits_val 0 (d1 @ d2), ex - int (length d2))))"

definition from_chars_float :: "nat \<Rightarrow> int \<Rightarrow> string \<Rightarrow> nat \<times> errc \<times> float_value" where
  "from_chars_float p emax input =
     (let neg = starts_with input CHR ''-'';
          body = (if neg then tl input else input);
          off = (if neg then 1 else 0)
      in case special_pattern neg body of
           Some (n, v) \<Rightarrow> (off + n, errc_ok, v)
         | None \<Rightarrow>
             (case decimal_pattern body of
                None \<Rightarrow> (0, invalid_argument, Finite False 0 0)
              | Some (n, D, x) \<Rightarrow>
                  (case round_nearest p emax D x of
                     None \<Rightarrow> (off + n, result_out_of_range, Finite False 0 0)
                   | Some (m, e) \<Rightarrow> (off + n, errc_ok, Finite neg m e))))"

subsection \<open>\<^verbatim>\<open>ValueParser<T>::parse\<close>\<close>

text \<open>
  The branch for \<^verbatim>\<open>std::is_arithmetic_v<T>\<close> serves the integer and the floating-point
  types alike: the error code must be clear and the whole input consumed.
\<close>

fun ValueParser :: "inner_type \<Rightarrow> string \<Rightarrow> val option" where
  "ValueParser Bool input =
     (if input = ''true'' \<or> input = ''1'' \<or> input = ''yes'' \<or> input = ''on'' \<or> input = ''y''
      then Some (BoolV True)
      else if input = ''false'' \<or> input = ''0'' \<or> input = ''no'' \<or> input = ''off''
              \<or> input = ''n''
      then Some (BoolV False)
      else None)"
| "ValueParser StringView input = Some (StringV input)"
| "ValueParser (Integer sg w) input =
     (case from_chars sg w input of
        (ptr, ec, v) \<Rightarrow> if ec = errc_ok \<and> ptr = length input then Some (IntV v) else None)"
| "ValueParser (Floating p emax) input =
     (case from_chars_float p emax input of
        (ptr, ec, v) \<Rightarrow> if ec = errc_ok \<and> ptr = length input then Some (FloatV v) else None)"

subsection \<open>The declaration model\<close>

text \<open>
  \<^verbatim>\<open>Option<T, S>\<close>, \<^verbatim>\<open>Arg<T, S>\<close> and \<^verbatim>\<open>VarArgs<S>\<close>. The template argument \<open>T\<close> is
  the field \<open>o_type\<close> or \<open>a_type\<close>, the pointer to member is the number \<open>o_field\<close>,
  \<open>a_field\<close> or \<open>v_field\<close>. A name that the constructor leaves out is the empty string.
\<close>

record slic_Option =
  o_name :: string
  o_altName :: string
  o_description :: string
  o_type :: field_type
  o_field :: nat

record slic_Arg =
  a_name :: string
  a_description :: string
  a_type :: field_type
  a_field :: nat

record slic_VarArgs =
  v_description :: string
  v_field :: nat

datatype decl = OptionD slic_Option | ArgD slic_Arg | VarArgsD slic_VarArgs

definition matches :: "slic_Option \<Rightarrow> string \<Rightarrow> bool" where
  "matches opt arg = (arg = o_name opt \<or> arg = o_altName opt)"

definition needsValue :: "slic_Option \<Rightarrow> bool" where
  "needsValue opt = (unwrap_optional (o_type opt) \<noteq> Bool)"

definition isOptional :: "slic_Arg \<Rightarrow> bool" where
  "isOptional a = is_optional (a_type a)"

fun is_option :: "decl \<Rightarrow> bool" where
  "is_option (OptionD opt) = True"
| "is_option d = False"


fun is_varargs :: "decl \<Rightarrow> bool" where
  "is_varargs (VarArgsD v) = True"
| "is_varargs d = False"

subsection \<open>The options struct\<close>

text \<open>
  What a member holds: a plain value, a \<^verbatim>\<open>std::optional\<close>, or an \<^verbatim>\<open>ArgSpan\<close>, which is
  a view of a suffix of \<open>argv\<close> and is modelled by the tokens it shows.
\<close>

datatype cell = Value val | OptionalValue "val option" | Span "string list"

type_synonym options = "nat \<Rightarrow> cell"

text \<open>
  \<^verbatim>\<open>m_options.*field = *parsed\<close>: assigning to an optional member engages it.
\<close>

fun assign :: "options \<Rightarrow> field_type \<Rightarrow> nat \<Rightarrow> val \<Rightarrow> options" where
  "assign m (Direct t) f v = m(f := Value v)"
| "assign m (Optional t) f v = m(f := OptionalValue (Some v))"

subsection \<open>Walking the tuple \<^verbatim>\<open>T::Options\<close>\<close>

text \<open>
  The fold expressions over the index sequence visit the tuple from its first element
  to its last. The counters of \<^verbatim>\<open>optionCount\<close>, \<^verbatim>\<open>argumentCount\<close>, \<^verbatim>\<open>hasVarArgs\<close> and
  \<^verbatim>\<open>varArgsIndex\<close> are the accumulators below; \<^verbatim>\<open>varArgsIndex\<close> overwrites its
  counter at every variadic declaration, so the last one stays.
\<close>

fun optionCount_from :: "nat \<Rightarrow> decl list \<Rightarrow> nat" where
  "optionCount_from count [] = count"
| "optionCount_from count (d # ds) = optionCount_from (if is_option d then count + 1 else count) ds"

definition optionCount :: "decl list \<Rightarrow> nat" where
  "optionCount Options = optionCount_from 0 Options"



fun hasVarArgs_from :: "bool \<Rightarrow> decl list \<Rightarrow> bool" where
  "hasVarArgs_from found [] = found"
| "hasVarArgs_from found (d # ds) = hasVarArgs_from (if is_varargs d then True else found) ds"

definition hasVarArgs :: "decl list \<Rightarrow> bool" where
  "hasVarArgs Options = hasVarArgs_from False Options"

fun varArgsIndex_from :: "nat \<Rightarrow> nat \<Rightarrow> decl list \<Rightarrow> nat" where
  "varArgsIndex_from count I [] = count"
| "varArgsIndex_from count I (d # ds) =
     varArgsIndex_from (if is_varargs d then I else count) (I + 1) ds"

definition varArgsIndex :: "decl list \<Rightarrow> nat" where
  "varArgsIndex Options = varArgsIndex_from 0 0 Options"

datatype IterResult = Continue | Break

text \<open>
  \<^verbatim>\<open>forEachOptionUntil\<close> and \<^verbatim>\<open>forEachArgIndexed\<close>. The callback is a lambda that captures
  local variables by reference; here it takes what it captures as a state \<open>s\<close> and
  gives it back. Once the callback has answered \<open>Break\<close> the rest is skipped.
\<close>

fun forEachOptionUntil ::
  "(slic_Option \<Rightarrow> 's \<Rightarrow> IterResult \<times> 's) \<Rightarrow> decl list \<Rightarrow> IterResult \<Rightarrow> 's \<Rightarrow> IterResult \<times> 's"
where
  "forEachOptionUntil func [] result s = (result, s)"
| "forEachOptionUntil func (d # ds) result s =
     (if result = Break then forEachOptionUntil func ds result s
      else case d of
             OptionD opt \<Rightarrow> (case func opt s of (result', s') \<Rightarrow> forEachOptionUntil func ds result' s')
           | _ \<Rightarrow> forEachOptionUntil func ds result s)"

fun forEachArgIndexed ::
  "(slic_Arg \<Rightarrow> nat \<Rightarrow> 's \<Rightarrow> IterResult \<times> 's) \<Rightarrow> decl list \<Rightarrow> IterResult \<Rightarrow> nat \<Rightarrow> 's
     \<Rightarrow> IterResult \<times> 's"
where
  "forEachArgIndexed func [] result idx s = (result, s)"
| "forEachArgIndexed func (d # ds) result idx s =
     (if result = Break then forEachArgIndexed func ds result idx s
      else case d of
             ArgD a \<Rightarrow> (case func a idx s of
                         (result', s') \<Rightarrow> forEachArgIndexed func ds result' (idx + 1) s')
           | _ \<Rightarrow> forEachArgIndexed func ds result idx s)"

subsection \<open>\<^verbatim>\<open>ArgParser<T>\<close>\<close>

text \<open>
  The parser holds \<open>m_options\<close>, \<open>m_argc\<close> and \<open>m_argv\<close>. The token array is the list
  \<open>m_argv\<close> and \<open>m_argc\<close> is its length. \<open>tryParseOption\<close> takes \<open>index\<close> by reference
  and writes \<open>m_options\<close>: it returns its result, the index and the struct.
\<close>

definition tryParseOption_body ::
  "string list \<Rightarrow> string \<Rightarrow> string \<Rightarrow> string option \<Rightarrow> slic_Option
     \<Rightarrow> ParseResult \<times> nat \<times> options \<Rightarrow> IterResult \<times> ParseResult \<times> nat \<times> options"
where
  "tryParseOption_body m_argv arg optName inlineValue opt s =
     (case s of (result, index, m_options) \<Rightarrow>
        if \<not> matches opt optName then (Continue, s)
        else if unwrap_optional (o_type opt) = Bool then
          (case inlineValue of
             Some iv \<Rightarrow>
               (case ValueParser Bool iv of
                  None \<Rightarrow> (Break, failure InvalidValue arg, index, m_options)
                | Some parsed \<Rightarrow>
                    (Break, success, index, assign m_options (o_type opt) (o_field opt) parsed))
           | None \<Rightarrow>
               (Break, success, index,
                assign m_options (o_type opt) (o_field opt) (BoolV True)))
        else
          (case (case inlineValue of
                   Some iv \<Rightarrow> Some (iv, index)
                 | None \<Rightarrow>
                     if index + 1 < length m_argv then Some (m_argv ! (index + 1), index + 1)
                     else None) of
             None \<Rightarrow> (Break, failure MissingValue optName, index, m_options)
           | Some (v, index') \<Rightarrow>
               (case ValueParser (unwrap_optional (o_type opt)) v of
                  None \<Rightarrow> (Break, failure InvalidValue arg, index', m_options)
                | Some parsed \<Rightarrow>
                    (Break, success, index',
                     assign m_options (o_type opt) (o_field opt) parsed))))"

definition tryParseOption ::
  "decl list \<Rightarrow> string list \<Rightarrow> string \<Rightarrow> nat \<Rightarrow> options \<Rightarrow> ParseResult \<times> nat \<times> options"
where
  "tryParseOption Options m_argv arg index m_options =
     (let eqPos = find_char arg CHR ''='';
          optName = (case eqPos of Some p \<Rightarrow> substr arg 0 p | None \<Rightarrow> arg);
          inlineValue = (case eqPos of Some p \<Rightarrow> Some (substr_from arg (p + 1)) | None \<Rightarrow> None);
          result = failure UnknownOption optName
      in snd (forEachOptionUntil (tryParseOption_body m_argv arg optName inlineValue)
                Options Continue (result, index, m_options)))"

definition tryParsePositional_body ::
  "string \<Rightarrow> nat \<Rightarrow> slic_Arg \<Rightarrow> nat \<Rightarrow> ParseResult \<times> options
     \<Rightarrow> IterResult \<times> ParseResult \<times> options"
where
  "tryParsePositional_body v targetIndex a idx s =
     (case s of (result, m_options) \<Rightarrow>
        if idx \<noteq> targetIndex then (Continue, s)
        else
          (case ValueParser (unwrap_optional (a_type a)) v of
             None \<Rightarrow> (Break, failure InvalidValue v, m_options)
           | Some parsed \<Rightarrow>
               (Break, success, assign m_options (a_type a) (a_field a) parsed)))"

definition tryParsePositional ::
  "decl list \<Rightarrow> string \<Rightarrow> nat \<Rightarrow> options \<Rightarrow> ParseResult \<times> options"
where
  "tryParsePositional Options v targetIndex m_options =
     snd (forEachArgIndexed (tryParsePositional_body v targetIndex) Options Continue 0
            (failure TooManyArgs v, m_options))"

definition setVarArgs :: "decl list \<Rightarrow> string list \<Rightarrow> nat \<Rightarrow> options \<Rightarrow> options" where
  "setVarArgs Options m_argv startIndex m_options =
     (if hasVarArgs Options then
        (case Options ! varArgsIndex Options of
           VarArgsD va \<Rightarrow> m_options(v_field va := Span (drop startIndex m_argv))
         | _ \<Rightarrow> m_options)
      else m_options)"

definition checkRequired_body :: "nat \<Rightarrow> slic_Arg \<Rightarrow> nat \<Rightarrow> string \<Rightarrow> IterResult \<times> string" where
  "checkRequired_body count a idx missingArg =
     (if \<not> isOptional a \<and> idx \<ge> count \<and> missingArg = [] then (Break, a_name a)
      else (Continue, missingArg))"

definition checkRequired :: "decl list \<Rightarrow> nat \<Rightarrow> ParseResult" where
  "checkRequired Options count =
     (let missingArg = snd (forEachArgIndexed (checkRequired_body count) Options Continue 0 [])
      in if missingArg \<noteq> [] then failure MissingRequiredArg missingArg else success)"

text \<open>
  The body of the loop of \<^verbatim>\<open>parse()\<close> at token \<open>i\<close>. It ends in one of three ways:
  the loop goes on (with the index as the option handler left it, before \<^verbatim>\<open>++i\<close>),
  the loop is left by \<^verbatim>\<open>break\<close>, or \<^verbatim>\<open>parse()\<close> returns.
\<close>

datatype flow =
  Continue_loop nat nat options
| Break_loop nat int options
| Return ParseResult options

definition parse_body ::
  "decl list \<Rightarrow> string list \<Rightarrow> nat \<Rightarrow> nat \<Rightarrow> int \<Rightarrow> options \<Rightarrow> flow"
where
  "parse_body Options m_argv i positionalIndex varArgsStart m_options =
     (let arg = m_argv ! i in
      if arg = ''--'' then
        Break_loop positionalIndex
          (if i + 1 < length m_argv then int (i + 1) else varArgsStart) m_options
      else if starts_with arg CHR ''-'' then
        (case tryParseOption Options m_argv arg i m_options of
           (result, i', m_options') \<Rightarrow>
             if \<not> isOk result then Return result m_options'
             else Continue_loop i' positionalIndex m_options')
      else
        (case tryParsePositional Options arg positionalIndex m_options of
           (result, m_options') \<Rightarrow>
             if isOk result then Continue_loop i (positionalIndex + 1) m_options'
             else if error result = TooManyArgs then
               (if hasVarArgs Options then Break_loop positionalIndex (int i) m_options'
                else Return result m_options')
             else Return result m_options'))"

text \<open>
  The loop of \<^verbatim>\<open>parse()\<close> from token \<open>i\<close> on. The first component of the result is
  the value returned from inside the loop, if any; the others are the local variables
  and the struct when the loop is left.
\<close>

function parse_loop ::
  "decl list \<Rightarrow> string list \<Rightarrow> nat \<Rightarrow> nat \<Rightarrow> int \<Rightarrow> options
     \<Rightarrow> ParseResult option \<times> nat \<times> int \<times> options"
where
  "parse_loop Options m_argv i positionalIndex varArgsStart m_options =
     (if i < length m_argv then
        (case parse_body Options m_argv i positionalIndex varArgsStart m_options of
           Continue_loop i' positionalIndex' m_options' \<Rightarrow>
             parse_loop Options m_argv (i' + 1) positionalIndex' varArgsStart m_options'
         | Break_loop positionalIndex' varArgsStart' m_options' \<Rightarrow>
             (None, positionalIndex', varArgsStart', m_options')
         | Return result m_options' \<Rightarrow> (Some result, positionalIndex, varArgsStart, m_options'))
      else (None, positionalIndex, varArgsStart, m_options))"
  by pat_completeness auto
termination
proof (relation "measure (\<lambda>(Options, m_argv, i, p, v, m). length m_argv - i)")
  show "wf (measure (\<lambda>(Options, m_argv, i, p, v, m). length m_argv - i))" by simp
next
  fix Options m_argv i positionalIndex varArgsStart m_options i' p' m'
  assume less: "i < length m_argv"
    and body: "parse_body Options m_argv i positionalIndex varArgsStart m_options
                 = Continue_loop i' p' m'"
  have step: "j \<le> j'"
    if "tryParseOption_body m_argv arg optName iv opt (r, j, m) = (res, r', j', m'')"
    for arg optName iv opt r j m res r' j' m''
    using that
    by (auto simp: tryParseOption_body_def split: if_splits option.splits prod.splits)
  have walk: "j \<le> j'"
    if "forEachOptionUntil (tryParseOption_body m_argv arg optName iv) ds res0 (r, j, m)
          = (res, r', j', m'')"
    for arg optName iv ds res0 r j m res r' j' m''
    using that
  proof (induction ds arbitrary: res0 r j m)
    case Nil
    then show ?case by simp
  next
    case (Cons d ds)
    show ?case
    proof (cases "res0 = Break")
      case True
      with Cons show ?thesis by simp
    next
      case notBreak: False
      show ?thesis
      proof (cases d)
        case (OptionD opt)
        obtain res1 r1 j1 m1
          where b: "tryParseOption_body m_argv arg optName iv opt (r, j, m) = (res1, r1, j1, m1)"
          by (metis prod_cases4)
        with Cons.prems OptionD notBreak
        have "forEachOptionUntil (tryParseOption_body m_argv arg optName iv) ds res1 (r1, j1, m1)
                = (res, r', j', m'')"
          by simp
        from Cons.IH [OF this] step [OF b] show ?thesis by simp
      next
        case (ArgD a)
        with Cons notBreak show ?thesis by simp
      next
        case (VarArgsD v)
        with Cons notBreak show ?thesis by simp
      qed
    qed
  qed
  have "i \<le> i'"
    using body walk
    by (auto simp: parse_body_def tryParseOption_def Let_def split: if_splits prod.splits)
       (metis prod.collapse)+
  with less
  show "((Options, m_argv, i' + 1, p', varArgsStart, m'),
         Options, m_argv, i, positionalIndex, varArgsStart, m_options)
       \<in> measure (\<lambda>(Options, m_argv, i, p, v, m). length m_argv - i)"
    by simp
qed

text \<open>
  \<^verbatim>\<open>parse()\<close> with the loop entered at an arbitrary state, and \<^verbatim>\<open>parse()\<close> itself: the
  loop starts at token 1 with no positional filled and \<^verbatim>\<open>varArgsStart = -1\<close>. The
  struct \<open>m_options\<close> of a new parser holds the defaults of \<open>T\<close>. The result is the
  returned \<^verbatim>\<open>ParseResult\<close> with the struct that \<^verbatim>\<open>result()\<close> shows afterwards.
\<close>

definition parse_from ::
  "decl list \<Rightarrow> string list \<Rightarrow> nat \<Rightarrow> nat \<Rightarrow> int \<Rightarrow> options \<Rightarrow> ParseResult \<times> options"
where
  "parse_from Options m_argv i positionalIndex varArgsStart m_options =
     (case parse_loop Options m_argv i positionalIndex varArgsStart m_options of
        (Some result, positionalIndex', varArgsStart', m_options') \<Rightarrow> (result, m_options')
      | (None, positionalIndex', varArgsStart', m_options') \<Rightarrow>
          (checkRequired Options positionalIndex',
           if varArgsStart' \<ge> 0 then setVarArgs Options m_argv (nat varArgsStart') m_options'
           else m_options'))"

definition parse :: "decl list \<Rightarrow> string list \<Rightarrow> options \<Rightarrow> ParseResult \<times> options" where
  "parse Options m_argv m_options = parse_from Options m_argv 1 0 (- 1) m_options"

subsection \<open>The specification's reading of the declarations\<close>

text \<open>
  The notions the specification uses, written without the tuple walks of the code: the
  declarations of each kind in declaration order, the option name and the inline value
  of a token (the parts before and after its first \<open>=\<close>), the first declared option
  with a given name, and the first required positional slot that the fill count has
  not reached.
\<close>

fun declared_options :: "decl list \<Rightarrow> slic_Option list" where
  "declared_options [] = []"
| "declared_options (OptionD opt # ds) = opt # declared_options ds"
| "declared_options (d # ds) = declared_options ds"

fun declared_args :: "decl list \<Rightarrow> slic_Arg list" where
  "declared_args [] = []"
| "declared_args (ArgD a # ds) = a # declared_args ds"
| "declared_args (d # ds) = declared_args ds"

fun declared_varargs :: "decl list \<Rightarrow> slic_VarArgs list" where
  "declared_varargs [] = []"
| "declared_varargs (VarArgsD va # ds) = va # declared_varargs ds"
| "declared_varargs (d # ds) = declared_varargs ds"

definition option_name :: "string \<Rightarrow> string" where
  "option_name arg = takeWhile (\<lambda>c. c \<noteq> CHR ''='') arg"

definition inline_value :: "string \<Rightarrow> string option" where
  "inline_value arg =
     (if CHR ''='' \<in> set arg then Some (tl (dropWhile (\<lambda>c. c \<noteq> CHR ''='') arg)) else None)"

definition first_match :: "decl list \<Rightarrow> string \<Rightarrow> slic_Option option" where
  "first_match Options n = find (\<lambda>opt. n = o_name opt \<or> n = o_altName opt) (declared_options Options)"

definition first_unmet :: "decl list \<Rightarrow> nat \<Rightarrow> slic_Arg option" where
  "first_unmet Options count =
     map_option snd
       (find (\<lambda>(idx, a). \<not> is_optional (a_type a) \<and> count \<le> idx)
          (enumerate 0 (declared_args Options)))"

subsection \<open>The option structs of the test suite\<close>

text \<open>
  The structs of \<^verbatim>\<open>tests/tests.cpp\<close> used below, each with the value of a default
  initialised struct. The members are numbered in the order of their declaration.
\<close>

definition VarArgsOptions :: "decl list" where
  "VarArgsOptions =
     [ArgD \<lparr>a_name = ''command'', a_description = ''Command to run'',
            a_type = Direct StringView, a_field = 0\<rparr>,
      VarArgsD \<lparr>v_description = ''Additional arguments'', v_field = 1\<rparr>]"

definition VarArgsOptions_init :: options where
  "VarArgsOptions_init = (\<lambda>f. if f = 0 then Value (StringV []) else Span [])"



definition SimpleOptions :: "decl list" where
  "SimpleOptions =
     [OptionD \<lparr>o_name = ''-v'', o_altName = ''--verbose'',
               o_description = ''Enable verbose output'', o_type = Direct Bool, o_field = 0\<rparr>,
      OptionD \<lparr>o_name = ''-c'', o_altName = ''--count'', o_description = ''Set count'',
               o_type = Direct (Integer True 32), o_field = 1\<rparr>,
      ArgD \<lparr>a_name = ''name'', a_description = ''The name to use'',
            a_type = Direct StringView, a_field = 2\<rparr>]"

definition SimpleOptions_init :: options where
  "SimpleOptions_init =
     (\<lambda>f. if f = 0 then Value (BoolV False) else if f = 1 then Value (IntV 0)
          else Value (StringV []))"





subsection \<open>The integer grammar of the specification\<close>

text \<open>
  The numeric grammar for an integer type, as a property of the whole token: an optional
  minus sign (for a signed type only) and then one or more decimal digits, nothing
  before and nothing after. \<open>token_value\<close> is the number such a token denotes in
  positional notation.
\<close>

definition integer_grammar :: "bool \<Rightarrow> string \<Rightarrow> bool" where
  "integer_grammar sg t =
     (case t of
        [] \<Rightarrow> False
      | c # cs \<Rightarrow> if sg \<and> c = CHR ''-'' then cs \<noteq> [] \<and> list_all is_digit cs
                  else list_all is_digit t)"

fun decimal :: "string \<Rightarrow> int" where
  "decimal [] = 0"
| "decimal (c # cs) = digit_val c * 10 ^ length cs + decimal cs"

definition token_value :: "string \<Rightarrow> int" where
  "token_value t = (case t of [] \<Rightarrow> 0 | c # cs \<Rightarrow> if c = CHR ''-'' then - decimal cs else decimal t)"

subsection \<open>The floating-point grammar of the specification\<close>

text \<open>
  The numeric grammar for a floating-point type, as a property of the whole token: an
  optional minus sign and then a decimal number or one of the special names. A decimal
  number is a mantissa, optionally followed by \<^verbatim>\<open>e\<close> or \<^verbatim>\<open>E\<close> and an exponent; the mantissa
  has digits and at most one point and at least one digit, the exponent is an optional
  sign and one or more digits. \<open>float_digits\<close> and \<open>float_exponent\<close> read off such a
  token the integer \<open>D\<close> of its digits and the power of ten \<open>x\<close> that goes with it, so that
  the token denotes \<open>D * 10 ^ x\<close>; \<open>float_token_value\<close> is the value of the type for
  the token, and \<open>None\<close> when the number is out of the range of the type.
\<close>

definition is_exp_char :: "char \<Rightarrow> bool" where
  "is_exp_char c = (c = CHR ''e'' \<or> c = CHR ''E'')"

definition mantissa_ok :: "string \<Rightarrow> bool" where
  "mantissa_ok mant =
     (list_all (\<lambda>c. is_digit c \<or> c = CHR ''.'') mant
      \<and> length (filter (\<lambda>c. c = CHR ''.'') mant) \<le> 1
      \<and> list_ex is_digit mant)"

definition exponent_ok :: "string \<Rightarrow> bool" where
  "exponent_ok ex =
     (case ex of
        [] \<Rightarrow> False
      | c # cs \<Rightarrow> if c = CHR ''+'' \<or> c = CHR ''-'' then cs \<noteq> [] \<and> list_all is_digit cs
                  else list_all is_digit ex)"

definition decimal_grammar :: "string \<Rightarrow> bool" where
  "decimal_grammar body =
     (let mant = takeWhile (\<lambda>c. \<not> is_exp_char c) body;
          rest = dropWhile (\<lambda>c. \<not> is_exp_char c) body
      in mantissa_ok mant \<and> (rest = [] \<or> exponent_ok (tl rest)))"

definition special_grammar :: "string \<Rightarrow> bool" where
  "special_grammar body =
     (let l = map to_lower body
      in l = ''inf'' \<or> l = ''infinity'' \<or> l = ''nan''
         \<or> (take 4 l = ''nan('' \<and> 5 \<le> length body \<and> last body = CHR '')''
             \<and> list_all is_nchar (butlast (drop 4 body))))"

definition unsigned_part :: "string \<Rightarrow> string" where
  "unsigned_part t = (case t of [] \<Rightarrow> [] | c # cs \<Rightarrow> if c = CHR ''-'' then cs else t)"

definition float_grammar :: "string \<Rightarrow> bool" where
  "float_grammar t = (special_grammar (unsigned_part t) \<or> decimal_grammar (unsigned_part t))"

definition signed_decimal :: "string \<Rightarrow> int" where
  "signed_decimal ex =
     (case ex of
        [] \<Rightarrow> 0
      | c # cs \<Rightarrow> if c = CHR ''-'' then - decimal cs else if c = CHR ''+'' then decimal cs
                  else decimal ex)"

definition float_digits :: "string \<Rightarrow> int" where
  "float_digits body = decimal (filter is_digit (takeWhile (\<lambda>c. \<not> is_exp_char c) body))"

definition float_exponent :: "string \<Rightarrow> int" where
  "float_exponent body =
     signed_decimal (tl (dropWhile (\<lambda>c. \<not> is_exp_char c) body))
     - int (length (filter is_digit
         (dropWhile (\<lambda>c. c \<noteq> CHR ''.'') (takeWhile (\<lambda>c. \<not> is_exp_char c) body))))"

definition float_token_value :: "nat \<Rightarrow> int \<Rightarrow> string \<Rightarrow> float_value option" where
  "float_token_value p emax t =
     (let neg = starts_with t CHR ''-'';
          body = unsigned_part t
      in if map to_lower (take 3 body) = ''inf'' then Some (Infinity neg)
         else if map to_lower (take 3 body) = ''nan'' then Some NaN
         else
           (case round_nearest p emax (float_digits body) (float_exponent body) of
              None \<Rightarrow> None
            | Some (m, e) \<Rightarrow> Some (Finite neg m e)))"

subsection \<open>The run of the scan\<close>

text \<open>
  \<open>scan Options argv init ws i pos m\<close>: started on the struct \<open>init\<close>, the loop of
  \<^verbatim>\<open>parse()\<close> arrives at token \<open>i\<close> with \<open>pos\<close> positional slots filled and the struct
  \<open>m\<close>, every token before having been processed without error. The list \<open>ws\<close> is the
  record of the writes so far, oldest first: for each processed token, the member bound
  by the declaration it satisfied (the first matching option, or the positional slot at
  the fill count) with the content the member had right after that token. \<open>replay\<close>
  applies such a record to a struct.
\<close>

inductive scan ::
  "decl list \<Rightarrow> string list \<Rightarrow> options \<Rightarrow> (nat \<times> cell) list \<Rightarrow> nat \<Rightarrow> nat \<Rightarrow> options \<Rightarrow> bool"
  for Options :: "decl list" and argv :: "string list" and init :: options
where
  scan_start: "scan Options argv init [] 1 0 init"
| scan_option:
    "scan Options argv init ws i pos m \<Longrightarrow> i < length argv \<Longrightarrow>
     starts_with (argv ! i) CHR ''-'' \<Longrightarrow>
     parse_body Options argv i pos (- 1) m = Continue_loop i' pos' m' \<Longrightarrow>
     first_match Options (option_name (argv ! i)) = Some opt \<Longrightarrow>
     scan Options argv init (ws @ [(o_field opt, m' (o_field opt))]) (i' + 1) pos' m'"
| scan_positional:
    "scan Options argv init ws i pos m \<Longrightarrow> i < length argv \<Longrightarrow>
     \<not> starts_with (argv ! i) CHR ''-'' \<Longrightarrow>
     parse_body Options argv i pos (- 1) m = Continue_loop i' pos' m' \<Longrightarrow>
     pos < length (declared_args Options) \<Longrightarrow>
     scan Options argv init
       (ws @ [(a_field (declared_args Options ! pos), m' (a_field (declared_args Options ! pos)))])
       (i' + 1) pos' m'"

definition replay :: "(nat \<times> cell) list \<Rightarrow> options \<Rightarrow> options" where
  "replay ws init = foldl (\<lambda>m (f, c). m(f := c)) init ws"



section \<open>The tuple walks and the specification's notions\<close>

declare ValueParser.simps(1,3,4) [simp del]

lemma forEachOptionUntil_Break [simp]:
  "forEachOptionUntil func ds Break s = (Break, s)"
  by (induction ds) auto

lemma forEachArgIndexed_Break [simp]:
  "forEachArgIndexed func ds Break idx s = (Break, s)"
  by (induction ds arbitrary: idx) auto

lemma find_char_None: "find_char s c = None \<longleftrightarrow> c \<notin> set s"
  by (induction s) auto

lemma find_char_Some:
  "find_char s c = Some p \<Longrightarrow> take p s = takeWhile (\<lambda>x. x \<noteq> c) s \<and> drop (Suc p) s = tl (dropWhile (\<lambda>x. x \<noteq> c) s)"
  by (induction s arbitrary: p) (auto split: if_splits)

lemma split_at_equals:
  "(case find_char arg CHR ''='' of Some p \<Rightarrow> substr arg 0 p | None \<Rightarrow> arg) = option_name arg"
  "(case find_char arg CHR ''='' of Some p \<Rightarrow> Some (substr_from arg (p + 1)) | None \<Rightarrow> None)
     = inline_value arg"
proof -
  show "(case find_char arg CHR ''='' of Some p \<Rightarrow> substr arg 0 p | None \<Rightarrow> arg)
          = option_name arg"
  proof (cases "find_char arg CHR ''=''")
    case None
    then have "\<forall>x\<in>set arg. x \<noteq> CHR ''=''" by (auto simp: find_char_None)
    then have tw: "takeWhile (\<lambda>c. c \<noteq> CHR ''='') arg = arg"
      by (simp only: takeWhile_eq_all_conv)
    show ?thesis unfolding option_name_def tw None by simp
  next
    case (Some p)
    with find_char_Some [OF Some] show ?thesis by (simp add: option_name_def substr_def)
  qed
  show "(case find_char arg CHR ''='' of Some p \<Rightarrow> Some (substr_from arg (p + 1)) | None \<Rightarrow> None)
          = inline_value arg"
  proof (cases "find_char arg CHR ''=''")
    case None
    then have "CHR ''='' \<notin> set arg" by (simp add: find_char_None)
    with None show ?thesis by (simp add: inline_value_def)
  next
    case (Some p)
    then have "CHR ''='' \<in> set arg" using find_char_None [of arg "CHR ''=''"] by auto
    with Some find_char_Some [OF Some] show ?thesis
      by (simp add: inline_value_def substr_from_def)
  qed
qed

lemma tryParseOption_body_nomatch:
  "\<not> matches opt n \<Longrightarrow> tryParseOption_body argv arg n iv opt s = (Continue, s)"
  by (auto simp: tryParseOption_body_def split: prod.splits)

lemma tryParseOption_body_match:
  "matches opt n \<Longrightarrow> fst (tryParseOption_body argv arg n iv opt s) = Break"
  by (auto simp: tryParseOption_body_def split: prod.splits option.splits)

lemma forEachOptionUntil_first_match:
  "forEachOptionUntil (tryParseOption_body argv arg n iv) ds Continue s =
     (case find (\<lambda>opt. matches opt n) (declared_options ds) of
        None \<Rightarrow> (Continue, s)
      | Some opt \<Rightarrow> tryParseOption_body argv arg n iv opt s)"
proof (induction ds)
  case Nil
  show ?case by simp
next
  case (Cons d ds)
  show ?case
  proof (cases d)
    case (OptionD opt)
    show ?thesis
    proof (cases "matches opt n")
      case True
      obtain s' where "tryParseOption_body argv arg n iv opt s = (Break, s')"
        using tryParseOption_body_match [OF True, of argv arg iv s] by (metis prod.collapse)
      with True OptionD show ?thesis by simp
    next
      case False
      with OptionD Cons show ?thesis by (simp add: tryParseOption_body_nomatch)
    qed
  qed (use Cons in auto)
qed

lemma tryParseOption_first_match:
  "tryParseOption Options argv arg i m =
     (case first_match Options (option_name arg) of
        None \<Rightarrow> (failure UnknownOption (option_name arg), i, m)
      | Some opt \<Rightarrow>
          snd (tryParseOption_body argv arg (option_name arg) (inline_value arg) opt
                 (failure UnknownOption (option_name arg), i, m)))"
  unfolding tryParseOption_def Let_def split_at_equals forEachOptionUntil_first_match
    first_match_def matches_def [abs_def]
  by (simp split: option.splits)




lemma hasVarArgs_from_eq: "hasVarArgs_from found ds \<longleftrightarrow> found \<or> declared_varargs ds \<noteq> []"
  by (induction ds arbitrary: found rule: declared_varargs.induct) auto

lemma hasVarArgs_eq: "hasVarArgs Options \<longleftrightarrow> declared_varargs Options \<noteq> []"
  by (simp add: hasVarArgs_def hasVarArgs_from_eq)

lemma varArgsIndex_from_eq:
  "(if declared_varargs ds = [] then varArgsIndex_from c (length pre) ds = c
    else varArgsIndex_from c (length pre) ds < length (pre @ ds)
         \<and> (pre @ ds) ! varArgsIndex_from c (length pre) ds = VarArgsD (last (declared_varargs ds)))"
proof (induction ds arbitrary: c pre)
  case Nil
  show ?case by simp
next
  case (Cons d ds)
  have app: "(pre @ [d]) @ ds = pre @ d # ds" by simp
  show ?case
  proof (cases "is_varargs d")
    case True
    then obtain va where d: "d = VarArgsD va" by (cases d) auto
    from Cons [of "length pre" "pre @ [d]"] d show ?thesis
      by (auto simp: nth_append split: if_splits)
  next
    case False
    then have "declared_varargs (d # ds) = declared_varargs ds" by (cases d) auto
    with Cons [of c "pre @ [d]"] False show ?thesis
      by (auto split: if_splits)
  qed
qed

lemma varArgsIndex_eq:
  "hasVarArgs Options \<Longrightarrow> Options ! varArgsIndex Options = VarArgsD (last (declared_varargs Options))"
  using varArgsIndex_from_eq [of Options 0 "[]"]
  by (simp add: hasVarArgs_eq varArgsIndex_def)

lemma setVarArgs_eq:
  "setVarArgs Options argv k m =
     (if hasVarArgs Options then m(v_field (last (declared_varargs Options)) := Span (drop k argv))
      else m)"
  by (simp add: setVarArgs_def varArgsIndex_eq)

lemma forEachArgIndexed_positional:
  "idx \<le> t \<Longrightarrow>
   forEachArgIndexed (tryParsePositional_body v t) ds Continue idx s =
     (if t - idx < length (declared_args ds)
      then tryParsePositional_body v t (declared_args ds ! (t - idx)) t s
      else (Continue, s))"
proof (induction ds arbitrary: idx)
  case Nil
  show ?case by simp
next
  case (Cons d ds)
  show ?case
  proof (cases d)
    case (ArgD a)
    show ?thesis
    proof (cases "idx = t")
      case True
      have "fst (tryParsePositional_body v t a t s) = Break"
        by (cases s) (auto simp: tryParsePositional_body_def split: option.splits)
      then obtain s' where "tryParsePositional_body v t a t s = (Break, s')"
        by (metis prod.collapse)
      with True ArgD show ?thesis by simp
    next
      case False
      with Cons.prems have lt: "idx + 1 \<le> t" by simp
      have "tryParsePositional_body v t a idx s = (Continue, s)"
        using False by (cases s) (simp add: tryParsePositional_body_def)
      with Cons.IH [OF lt] ArgD False Cons.prems show ?thesis
        by (auto simp: nth_Cons' Suc_diff_Suc)
    qed
  qed (use Cons in auto)
qed

lemma tryParsePositional_eq:
  "tryParsePositional Options v k m =
     (if k < length (declared_args Options) then
        (case ValueParser (unwrap_optional (a_type (declared_args Options ! k))) v of
           None \<Rightarrow> (failure InvalidValue v, m)
         | Some x \<Rightarrow>
             (success,
              assign m (a_type (declared_args Options ! k)) (a_field (declared_args Options ! k)) x))
      else (failure TooManyArgs v, m))"
  by (simp add: tryParsePositional_def forEachArgIndexed_positional tryParsePositional_body_def
           split: option.splits)

lemma forEachArgIndexed_required:
  "forEachArgIndexed (checkRequired_body count) ds Continue idx [] =
     (case find (\<lambda>(j, a). \<not> is_optional (a_type a) \<and> count \<le> j)
             (enumerate idx (declared_args ds)) of
        None \<Rightarrow> (Continue, [])
      | Some (j, a) \<Rightarrow> (Break, a_name a))"
proof (induction ds arbitrary: idx)
  case Nil
  show ?case by simp
next
  case (Cons d ds)
  show ?case
  proof (cases d)
    case (ArgD a)
    with Cons show ?thesis
      by (simp add: checkRequired_body_def isOptional_def)
  qed (use Cons in auto)
qed

lemma checkRequired_eq:
  "checkRequired Options count =
     (case first_unmet Options count of
        None \<Rightarrow> success
      | Some a \<Rightarrow> if a_name a = [] then success else failure MissingRequiredArg (a_name a))"
  by (auto simp: checkRequired_def first_unmet_def forEachArgIndexed_required Let_def
           split: option.splits)

lemma first_unmet_None:
  "length (declared_args Options) \<le> count \<Longrightarrow> first_unmet Options count = None"
  by (auto simp: first_unmet_def find_None_iff in_set_enumerate_eq)


subsection \<open>One round of the loop\<close>

lemma parse_from_end:
  "\<not> i < length argv \<Longrightarrow>
   parse_from Options argv i pos vas m =
     (checkRequired Options pos, if vas \<ge> 0 then setVarArgs Options argv (nat vas) m else m)"
  by (simp add: parse_from_def)

lemma parse_from_step:
  "i < length argv \<Longrightarrow>
   parse_from Options argv i pos vas m =
     (case parse_body Options argv i pos vas m of
        Continue_loop i' pos' m' \<Rightarrow> parse_from Options argv (i' + 1) pos' vas m'
      | Break_loop pos' vas' m' \<Rightarrow>
          (checkRequired Options pos',
           if vas' \<ge> 0 then setVarArgs Options argv (nat vas') m' else m')
      | Return r m' \<Rightarrow> (r, m'))"
  unfolding parse_from_def
  by (subst parse_loop.simps) (simp split: flow.splits)

lemma parse_body_separator:
  "argv ! i = ''--'' \<Longrightarrow>
   parse_body Options argv i pos vas m =
     Break_loop pos (if i + 1 < length argv then int (i + 1) else vas) m"
  by (simp add: parse_body_def)

lemma not_dash_not_separator: "\<not> starts_with arg CHR ''-'' \<Longrightarrow> arg \<noteq> ''--''"
  by auto

lemma parse_body_positional:
  "\<not> starts_with (argv ! i) CHR ''-'' \<Longrightarrow>
   parse_body Options argv i pos vas m =
     (case tryParsePositional Options (argv ! i) pos m of
        (result, m') \<Rightarrow>
          if isOk result then Continue_loop i (pos + 1) m'
          else if error result = TooManyArgs then
            (if hasVarArgs Options then Break_loop pos (int i) m' else Return result m')
          else Return result m')"
  using not_dash_not_separator [of "argv ! i"] by (simp add: parse_body_def Let_def)

lemma parse_body_option:
  "argv ! i \<noteq> ''--'' \<Longrightarrow> starts_with (argv ! i) CHR ''-'' \<Longrightarrow>
   parse_body Options argv i pos vas m =
     (case tryParseOption Options argv (argv ! i) i m of
        (result, i', m') \<Rightarrow>
          if \<not> isOk result then Return result m' else Continue_loop i' pos m')"
  by (simp add: parse_body_def Let_def)

lemma isOk_simps [simp]:
  "isOk success" "\<not> isOk (failure MissingValue c)" "\<not> isOk (failure InvalidValue c)"
  "\<not> isOk (failure UnknownOption c)" "\<not> isOk (failure MissingRequiredArg c)"
  "\<not> isOk (failure TooManyArgs c)"
  by (simp_all add: isOk_def success_def failure_def)

lemma error_failure [simp]: "error (failure e c) = e" "ctx (failure e c) = c"
  by (simp_all add: failure_def)

lemma nat_Suc_int [simp]: "nat (1 + int i) = Suc i"
  by linarith

lemma first_match_matches:
  "first_match Options n = Some opt \<Longrightarrow> matches opt n"
  by (auto simp: first_match_def matches_def find_Some_iff)


lemma tryParseOption_matched:
  assumes "first_match Options (option_name arg) = Some opt"
  shows "tryParseOption Options argv arg i m =
           (if unwrap_optional (o_type opt) = Bool then
              (case inline_value arg of
                 Some iv \<Rightarrow>
                   (case ValueParser Bool iv of
                      None \<Rightarrow> (failure InvalidValue arg, i, m)
                    | Some parsed \<Rightarrow> (success, i, assign m (o_type opt) (o_field opt) parsed))
               | None \<Rightarrow> (success, i, assign m (o_type opt) (o_field opt) (BoolV True)))
            else
              (case inline_value arg of
                 Some iv \<Rightarrow>
                   (case ValueParser (unwrap_optional (o_type opt)) iv of
                      None \<Rightarrow> (failure InvalidValue arg, i, m)
                    | Some parsed \<Rightarrow> (success, i, assign m (o_type opt) (o_field opt) parsed))
               | None \<Rightarrow>
                   if i + 1 < length argv then
                     (case ValueParser (unwrap_optional (o_type opt)) (argv ! (i + 1)) of
                        None \<Rightarrow> (failure InvalidValue arg, i + 1, m)
                      | Some parsed \<Rightarrow>
                          (success, i + 1, assign m (o_type opt) (o_field opt) parsed))
                   else (failure MissingValue (option_name arg), i, m)))"
proof -
  have m: "matches opt (option_name arg)" by (rule first_match_matches [OF assms])
  show ?thesis
    unfolding tryParseOption_first_match assms option.case
    using m
    by (cases "inline_value arg") (simp_all add: tryParseOption_body_def split: option.split)
qed


lemma parse_from_option:
  assumes "i < length argv" and "argv ! i = arg"
    and "starts_with arg CHR ''-''" and "arg \<noteq> ''--''"
  shows "parse_from Options argv i pos vas m =
           (case tryParseOption Options argv arg i m of
              (result, i', m') \<Rightarrow>
                if \<not> isOk result then (result, m')
                else parse_from Options argv (i' + 1) pos vas m')"
  apply (subst parse_from_step [OF assms(1)])
  apply (subst parse_body_option)
  using assms apply simp
  using assms apply simp
  using assms apply (simp split: prod.splits)
  done

subsection \<open>Integer coercion\<close>

lemma digits_val_decimal: "digits_val acc ds = acc * 10 ^ length ds + decimal ds"
  by (induction ds arbitrary: acc) (simp_all add: algebra_simps)

lemma takeWhile_all: "takeWhile P xs = xs \<longleftrightarrow> list_all P xs"
  by (induction xs) auto

lemma length_takeWhile_all: "length (takeWhile P xs) = length xs \<longleftrightarrow> list_all P xs"
  by (metis takeWhile_all length_takeWhile_le takeWhile_eq_take take_all_iff le_refl)

lemma not_digit_minus: "\<not> is_digit CHR ''-''"
  by (simp add: is_digit_def)

lemma ValueParser_integer:
  "ValueParser (Integer sg w) t =
     (if integer_grammar sg t \<and> representable sg w (token_value t)
      then Some (IntV (token_value t)) else None)"
proof -
  define neg where "neg = (sg \<and> starts_with t CHR ''-'')"
  define body where "body = (if neg then tl t else t)"
  define ds where "ds = takeWhile is_digit body"
  define v where "v = (if neg then - digits_val 0 ds else digits_val 0 ds)"
  have tneg: "t = CHR ''-'' # body" if neg
    using that unfolding neg_def body_def by (cases t) simp_all
  have tpos: "t = body" if "\<not> neg"
    using that by (simp add: body_def)
  have len: "length t = (if neg then 1 else 0) + length body"
    using tneg tpos by (cases neg) simp_all
  have grammar: "integer_grammar sg t \<longleftrightarrow> body \<noteq> [] \<and> list_all is_digit body"
  proof (cases neg)
    case True
    then have sg by (simp add: neg_def)
    with tneg [OF True] show ?thesis by (simp add: integer_grammar_def)
  next
    case False
    show ?thesis
    proof (cases body)
      case Nil
      with tpos [OF False] show ?thesis by (simp add: integer_grammar_def)
    next
      case (Cons c cs)
      with False tpos [OF False] have "\<not> (sg \<and> c = CHR ''-'')" by (simp add: neg_def)
      with Cons tpos [OF False] show ?thesis by (auto simp: integer_grammar_def)
    qed
  qed
  have val: "token_value t = (if neg then - decimal body else decimal body)"
    if digits: "list_all is_digit body"
  proof (cases neg)
    case True
    with tneg [OF True] show ?thesis by (simp add: token_value_def)
  next
    case False
    show ?thesis
    proof (cases body)
      case Nil
      with tpos [OF False] False show ?thesis by (simp add: token_value_def)
    next
      case (Cons c cs)
      with digits have "is_digit c" by simp
      then have "c \<noteq> CHR ''-''" using not_digit_minus by auto
      with Cons tpos [OF False] False show ?thesis by (simp add: token_value_def)
    qed
  qed
  have parser: "ValueParser (Integer sg w) t =
      (if ds = [] then None
       else if representable sg w v \<and> (if neg then 1 else 0) + length ds = length t
       then Some (IntV v) else None)"
    by (simp add: ValueParser.simps from_chars_def Let_def neg_def body_def ds_def v_def)
  show ?thesis
  proof (cases "list_all is_digit body")
    case True
    then have ds: "ds = body" by (simp add: ds_def list_all_iff)
    have "v = token_value t"
      by (simp add: v_def ds val [OF True] digits_val_decimal)
    then show ?thesis
      unfolding parser grammar ds len using True by simp
  next
    case False
    then have "length ds \<noteq> length body" by (simp add: ds_def length_takeWhile_all)
    with False show ?thesis
      unfolding parser grammar len by simp
  qed
qed

subsection \<open>Floating-point coercion\<close>

lemma takeWhile_append_stop:
  "list_all P xs \<Longrightarrow> ys = [] \<or> \<not> P (hd ys) \<Longrightarrow> takeWhile P (xs @ ys) = xs"
  by (cases ys) (auto simp: takeWhile_append list_all_iff)

lemma dropWhile_append_stop:
  "list_all P xs \<Longrightarrow> ys = [] \<or> \<not> P (hd ys) \<Longrightarrow> dropWhile P (xs @ ys) = ys"
  by (cases ys) (auto simp: dropWhile_append list_all_iff)

lemma takeWhile_list_all: "list_all P (takeWhile P xs)"
  by (induction xs) auto

lemma dropWhile_stop: "dropWhile P xs = [] \<or> \<not> P (hd (dropWhile P xs))"
  by (induction xs) auto

lemma length_takeWhile_less: "\<not> list_all P xs \<Longrightarrow> length (takeWhile P xs) < length xs"
  by (induction xs) auto

lemma sign_not_digit: "\<not> is_digit CHR ''+''" "\<not> is_digit CHR ''-''" "\<not> is_digit CHR ''.''"
  "\<not> is_digit CHR ''e''" "\<not> is_digit CHR ''E''"
  by (simp_all add: is_digit_def)

lemma exponent_pattern_ok:
  assumes "is_exp_char c" and "exponent_ok cs"
  shows "exponent_pattern (c # cs) = (Suc (length cs), signed_decimal cs)"
proof (cases cs)
  case Nil
  with assms show ?thesis by (simp add: exponent_ok_def)
next
  case (Cons s ss)
  show ?thesis
  proof (cases "s = CHR ''+'' \<or> s = CHR ''-''")
    case True
    with assms Cons have ss: "ss \<noteq> []" "list_all is_digit ss" by (auto simp: exponent_ok_def)
    then have tw: "takeWhile is_digit ss = ss" by (simp add: list_all_iff)
    from True Cons assms(1) ss show ?thesis
      by (auto simp: exponent_pattern_def is_exp_char_def signed_decimal_def tw
            digits_val_decimal Let_def)
  next
    case False
    with assms Cons have d: "is_digit s" "list_all is_digit ss" by (auto simp: exponent_ok_def)
    then have tw: "takeWhile is_digit ss = ss" by (simp add: list_all_iff)
    from False Cons assms(1) d(1) show ?thesis
      by (auto simp: exponent_pattern_def is_exp_char_def signed_decimal_def tw
            digits_val_decimal Let_def)
  qed
qed

lemma exponent_pattern_not_ok:
  assumes "\<not> exponent_ok cs"
  shows "fst (exponent_pattern (c # cs)) \<noteq> Suc (length cs)"
proof (cases cs)
  case Nil
  then show ?thesis by (simp add: exponent_pattern_def)
next
  case (Cons s ss)
  show ?thesis
  proof (cases "s = CHR ''+'' \<or> s = CHR ''-''")
    case True
    with assms Cons have "ss = [] \<or> \<not> list_all is_digit ss" by (auto simp: exponent_ok_def)
    then have "takeWhile is_digit ss = [] \<or> length (takeWhile is_digit ss) < length ss"
      using length_takeWhile_less [of is_digit ss] by auto
    with True Cons show ?thesis
      by (auto simp: exponent_pattern_def Let_def)
  next
    case False
    with assms Cons have "\<not> list_all is_digit cs" by (auto simp: exponent_ok_def)
    then have "length (takeWhile is_digit cs) < length cs" by (rule length_takeWhile_less)
    with False Cons show ?thesis
      by (auto simp: exponent_pattern_def Let_def simp del: takeWhile.simps)
  qed
qed

lemma exponent_pattern_other:
  "\<not> is_exp_char c \<Longrightarrow> exponent_pattern (c # cs) = (0, 0)"
  by (simp add: exponent_pattern_def is_exp_char_def)

lemma takeWhile_append_all: "list_all P xs \<Longrightarrow> takeWhile P (xs @ ys) = xs @ takeWhile P ys"
  by (induction xs) auto

lemma dropWhile_append_all: "list_all P xs \<Longrightarrow> dropWhile P (xs @ ys) = dropWhile P ys"
  by (induction xs) auto

lemma filter_digits_all: "list_all is_digit xs \<Longrightarrow> filter is_digit xs = xs"
  by (induction xs) auto

lemma filter_point_digits: "list_all is_digit xs \<Longrightarrow> filter (\<lambda>c. c = CHR ''.'') xs = []"
  by (induction xs) (auto simp: sign_not_digit)

lemma dropWhile_point_digits: "list_all is_digit xs \<Longrightarrow> dropWhile (\<lambda>c. c \<noteq> CHR ''.'') (xs @ ys) = dropWhile (\<lambda>c. c \<noteq> CHR ''.'') ys"
  by (induction xs) (auto simp: sign_not_digit)

lemma digits_not_exp: "list_all is_digit xs \<Longrightarrow> list_all (\<lambda>c. \<not> is_exp_char c) xs"
  by (induction xs) (auto simp: is_exp_char_def sign_not_digit)

lemma list_ex_digits: "list_all is_digit xs \<Longrightarrow> list_ex is_digit xs \<longleftrightarrow> xs \<noteq> []"
  by (cases xs) auto

lemma decimal_shape:
  obtains d1 pt d2 r2 where
    "body = d1 @ pt @ d2 @ r2" "list_all is_digit d1" "list_all is_digit d2"
    "pt = [] \<or> pt = ''.''" "pt = [] \<longrightarrow> d2 = []"
    "pt = [] \<longrightarrow> r2 = [] \<or> hd r2 \<noteq> CHR ''.''"
    "r2 = [] \<or> \<not> is_digit (hd r2)"
    "decimal_pattern body =
       (if d1 @ d2 = [] then None
        else case exponent_pattern r2 of
               (n, ex) \<Rightarrow> Some (length d1 + length pt + length d2 + n,
                              digits_val 0 (d1 @ d2), ex - int (length d2)))"
proof -
  define d1 where "d1 = takeWhile is_digit body"
  define r1 where "r1 = dropWhile is_digit body"
  have b1: "body = d1 @ r1" by (simp add: d1_def r1_def)
  have s1: "r1 = [] \<or> \<not> is_digit (hd r1)" unfolding r1_def by (rule dropWhile_stop)
  have a1: "list_all is_digit d1" unfolding d1_def by (rule takeWhile_list_all)
  show thesis
  proof (cases "starts_with r1 CHR ''.''")
    case True
    then obtain s where r1: "r1 = CHR ''.'' # s" by (cases r1) auto
    define d2 where "d2 = takeWhile is_digit s"
    define r2 where "r2 = dropWhile is_digit s"
    have "body = d1 @ ''.'' @ d2 @ r2" by (simp add: b1 r1 d2_def r2_def)
    moreover have "list_all is_digit d2" unfolding d2_def by (rule takeWhile_list_all)
    moreover have "r2 = [] \<or> \<not> is_digit (hd r2)" unfolding r2_def by (rule dropWhile_stop)
    moreover have "decimal_pattern body =
       (if d1 @ d2 = [] then None
        else case exponent_pattern r2 of
               (n, ex) \<Rightarrow> Some (length d1 + length ''.'' + length d2 + n,
                              digits_val 0 (d1 @ d2), ex - int (length d2)))"
      using r1 by (simp add: decimal_pattern_def Let_def d1_def [symmetric] r1_def [symmetric]
            d2_def r2_def split: prod.splits)
    ultimately show ?thesis using a1 by (intro that [of d1 "''.''" d2 r2]) simp_all
  next
    case False
    then have np: "r1 = [] \<or> hd r1 \<noteq> CHR ''.''" by (cases r1) auto
    have "body = d1 @ [] @ [] @ r1" by (simp add: b1)
    moreover have "decimal_pattern body =
       (if d1 @ [] = [] then None
        else case exponent_pattern r1 of
               (n, ex) \<Rightarrow> Some (length d1 + length ([] :: string) + length ([] :: string) + n,
                              digits_val 0 (d1 @ []), ex - int (length ([] :: string))))"
      using False by (simp add: decimal_pattern_def Let_def d1_def [symmetric] r1_def [symmetric]
            split: prod.splits)
    ultimately show ?thesis using a1 s1 np by (intro that [of d1 "[]" "[]" r1]) simp_all
  qed
qed

lemma decimal_pattern_grammar:
  "decimal_pattern body =
     (if decimal_grammar body then Some (length body, float_digits body, float_exponent body)
      else decimal_pattern body)
   \<and> (\<not> decimal_grammar body \<longrightarrow>
        (case decimal_pattern body of None \<Rightarrow> True | Some (n, D, x) \<Rightarrow> n \<noteq> length body))"
proof -
  let ?P = "\<lambda>c. \<not> is_exp_char c"
  obtain d1 pt d2 r2 where
    body: "body = d1 @ pt @ d2 @ r2" and a1: "list_all is_digit d1" and a2: "list_all is_digit d2"
    and pt: "pt = [] \<or> pt = ''.''" and p0: "pt = [] \<longrightarrow> d2 = []"
    and p1: "pt = [] \<longrightarrow> r2 = [] \<or> hd r2 \<noteq> CHR ''.''"
    and s2: "r2 = [] \<or> \<not> is_digit (hd r2)"
    and pat: "decimal_pattern body =
       (if d1 @ d2 = [] then None
        else case exponent_pattern r2 of
               (n, ex) \<Rightarrow> Some (length d1 + length pt + length d2 + n,
                              digits_val 0 (d1 @ d2), ex - int (length d2)))"
    by (rule decimal_shape [where body = body])
  have notexp: "list_all ?P (d1 @ pt @ d2)"
    using digits_not_exp [OF a1] digits_not_exp [OF a2] pt by (auto simp: is_exp_char_def)
  have mant: "takeWhile ?P body = (d1 @ pt @ d2) @ takeWhile ?P r2"
    using takeWhile_append_all [OF notexp, of r2] by (simp add: body)
  have rest: "dropWhile ?P body = dropWhile ?P r2"
    using dropWhile_append_all [OF notexp, of r2] by (simp add: body)
  have head_ok: "mantissa_ok (d1 @ pt @ d2) \<longleftrightarrow> d1 @ d2 \<noteq> []"
    using a1 a2 pt filter_point_digits [OF a1] filter_point_digits [OF a2]
      list_ex_digits [OF a1] list_ex_digits [OF a2]
    by (auto simp: mantissa_ok_def list_all_iff sign_not_digit)
  have digits: "filter is_digit d1 @ filter is_digit pt @ filter is_digit d2 = d1 @ d2"
    using filter_digits_all [OF a1] filter_digits_all [OF a2] pt by (auto simp: sign_not_digit)
  have frac: "filter is_digit (dropWhile (\<lambda>c. c \<noteq> CHR ''.'') (d1 @ pt @ d2)) = d2"
    using dropWhile_point_digits [OF a1, of "pt @ d2"] filter_digits_all [OF a2] pt p0
    by (auto simp: sign_not_digit)
  show ?thesis
  proof (cases r2)
    case Nil
    then have "decimal_grammar body \<longleftrightarrow> d1 @ d2 \<noteq> []"
      using head_ok by (simp add: decimal_grammar_def mant rest)
    moreover have "float_digits body = digits_val 0 (d1 @ d2)"
      using Nil by (simp add: float_digits_def mant digits digits_val_decimal)
    moreover have "float_exponent body = 0 - int (length d2)"
      using Nil by (simp add: float_exponent_def mant rest frac signed_decimal_def)
    moreover have "length body = length d1 + length pt + length d2" using Nil by (simp add: body)
    ultimately show ?thesis
      using Nil by (auto simp: pat exponent_pattern_def)
  next
    case (Cons c cs)
    with s2 have nd: "\<not> is_digit c" by simp
    show ?thesis
    proof (cases "is_exp_char c")
      case True
      then have m2: "takeWhile ?P r2 = []" and r2': "dropWhile ?P r2 = c # cs"
        using Cons by simp_all
      have g: "decimal_grammar body \<longleftrightarrow> d1 @ d2 \<noteq> [] \<and> exponent_ok cs"
        using head_ok by (simp add: decimal_grammar_def mant rest m2 r2')
      have fd: "float_digits body = digits_val 0 (d1 @ d2)"
        by (simp add: float_digits_def mant m2 digits digits_val_decimal)
      have fe: "float_exponent body = signed_decimal cs - int (length d2)"
        by (simp add: float_exponent_def mant rest m2 r2' frac)
      have len: "length body = length d1 + length pt + length d2 + Suc (length cs)"
        by (simp add: body Cons)
      show ?thesis
      proof (cases "exponent_ok cs")
        case ok: True
        show ?thesis
          using g fd fe len ok
          by (auto simp: pat Cons exponent_pattern_ok [OF True ok])
      next
        case bad: False
        from exponent_pattern_not_ok [OF bad, of c]
        show ?thesis
          using g len bad
          by (auto simp: pat Cons split: prod.splits)
      qed
    next
      case False
      then have m2: "takeWhile ?P r2 = c # takeWhile ?P cs" using Cons by simp
      have "\<not> mantissa_ok ((d1 @ pt @ d2) @ c # takeWhile ?P cs)"
      proof (cases "c = CHR ''.''")
        case True
        with p1 Cons have "pt = ''.''" using pt by auto
        with True show ?thesis by (simp add: mantissa_ok_def)
      next
        case False
        with nd show ?thesis by (simp add: mantissa_ok_def)
      qed
      then have g: "\<not> decimal_grammar body"
        by (simp add: decimal_grammar_def mant m2)
      have "length body = length d1 + length pt + length d2 + Suc (length cs)"
        by (simp add: body Cons)
      with g show ?thesis
        by (auto simp: pat Cons exponent_pattern_other [OF False])
    qed
  qed
qed

lemma to_lower_cases:
  "to_lower c = CHR ''i'' \<longleftrightarrow> c = CHR ''i'' \<or> c = CHR ''I''"
  "to_lower c = CHR ''n'' \<longleftrightarrow> c = CHR ''n'' \<or> c = CHR ''N''"
  "to_lower c = CHR ''('' \<longleftrightarrow> c = CHR ''(''"
  by (auto simp: to_lower_def split: if_splits)

lemma paren_not_nchar: "\<not> is_nchar CHR '')''"
  by (simp add: is_nchar_def)

lemma nan_suffix_full:
  "nan_suffix s = length s \<longleftrightarrow>
     s = [] \<or> (hd s = CHR ''('' \<and> tl s \<noteq> [] \<and> last s = CHR '')''
              \<and> list_all is_nchar (butlast (tl s)))"
proof (cases s)
  case Nil
  then show ?thesis by (simp add: nan_suffix_def)
next
  case (Cons c cs)
  define tw where "tw = takeWhile is_nchar cs"
  define dw where "dw = dropWhile is_nchar cs"
  have cs: "cs = tw @ dw" by (simp add: tw_def dw_def)
  have tw: "list_all is_nchar tw" unfolding tw_def by (rule takeWhile_list_all)
  have shape: "(cs \<noteq> [] \<and> last cs = CHR '')'' \<and> list_all is_nchar (butlast cs))
                 \<longleftrightarrow> dw = '')''"
  proof
    assume a: "cs \<noteq> [] \<and> last cs = CHR '')'' \<and> list_all is_nchar (butlast cs)"
    then have "cs = butlast cs @ '')''" by (metis append_butlast_last_id)
    with a dropWhile_append_stop [of is_nchar "butlast cs" "'')''"]
    show "dw = '')''" by (simp add: dw_def paren_not_nchar)
  next
    assume "dw = '')''"
    with cs tw show "cs \<noteq> [] \<and> last cs = CHR '')'' \<and> list_all is_nchar (butlast cs)"
      by (simp add: butlast_append)
  qed
  have len: "length cs = length tw + length dw" by (subst cs) simp
  show ?thesis
  proof (cases "c = CHR ''('' \<and> starts_with dw CHR '')''")
    case True
    then obtain rest where dw': "dw = CHR '')'' # rest" by (cases dw) auto
    have "nan_suffix s = length tw + 2"
      using True Cons by (simp add: nan_suffix_def tw_def dw_def)
    then have "nan_suffix s = length s \<longleftrightarrow> dw = '')''"
      using len dw' Cons by auto
    moreover have "last s = last cs" if "cs \<noteq> []" using that Cons by simp
    moreover have "tl s = cs" "hd s = c" using Cons by simp_all
    ultimately show ?thesis using shape True Cons by auto
  next
    case False
    then have "nan_suffix s = 0" using Cons by (auto simp: nan_suffix_def dw_def)
    moreover from False have "\<not> (c = CHR ''('' \<and> dw = '')'')" by auto
    moreover have "last s = last cs" if "cs \<noteq> []" using that Cons by simp
    moreover have "tl s = cs" "hd s = c" "s \<noteq> []" using Cons by simp_all
    ultimately show ?thesis using shape by auto
  qed
qed

lemma take_prefix: "length p = n \<Longrightarrow> take n l = p \<longleftrightarrow> (\<exists>r. l = p @ r)"
  by (metis append_eq_conv_conj)

lemma take_prefix_special:
  "take 8 l = ''infinity'' \<longleftrightarrow> (\<exists>r. l = ''infinity'' @ r)"
  "take 3 l = ''inf'' \<longleftrightarrow> (\<exists>r. l = ''inf'' @ r)"
  "take 3 l = ''nan'' \<longleftrightarrow> (\<exists>r. l = ''nan'' @ r)"
  "take 4 l = ''nan('' \<longleftrightarrow> (\<exists>r. l = ''nan('' @ r)"
  by (rule take_prefix; simp)+

lemma special_pattern_grammar:
  "special_grammar body \<longleftrightarrow> (\<exists>v. special_pattern neg body = Some (length body, v))"
proof -
  define l where "l = map to_lower body"
  have tk: "map to_lower (take n body) = take n l" for n by (simp add: l_def take_map)
  have ll: "length body = length l" by (simp add: l_def)
  show ?thesis
  proof (cases "take 8 l = ''infinity''")
    case A: True
    then obtain r where l: "l = ''infinity'' @ r"
      using take_prefix_special(1) [of l] by auto
    have "special_pattern neg body = Some (8, Infinity neg)"
      using A by (simp add: special_pattern_def tk)
    moreover have "special_grammar body \<longleftrightarrow> r = []"
      unfolding special_grammar_def Let_def l_def [symmetric] by (simp add: l)
    ultimately show ?thesis by (auto simp: ll l)
  next
    case notA: False
    show ?thesis
    proof (cases "take 3 l = ''inf''")
      case B: True
      then obtain r where l: "l = ''inf'' @ r"
        using take_prefix_special(2) [of l] by auto
      have "special_pattern neg body = Some (3, Infinity neg)"
        using notA B by (simp add: special_pattern_def tk)
      moreover have "special_grammar body \<longleftrightarrow> r = []"
        using notA unfolding special_grammar_def Let_def l_def [symmetric] by (auto simp: l)
      ultimately show ?thesis by (auto simp: ll l)
    next
      case notB: False
      show ?thesis
      proof (cases "take 3 l = ''nan''")
        case C: True
        then obtain r where l: "l = ''nan'' @ r"
          using take_prefix_special(3) [of l] by auto
        define s where "s = drop 3 body"
        have ge: "3 \<le> length body" using l ll by simp
        have len: "length body = 3 + length s" using ge by (simp add: s_def)
        have r: "r = map to_lower s" using l by (simp add: s_def l_def drop_map [symmetric])
        have pat: "special_pattern neg body = Some (3 + nan_suffix s, NaN)"
          using notA notB C by (simp add: special_pattern_def tk s_def)
        have d4: "drop 4 body = tl s"
          unfolding s_def by (simp add: drop_Suc numeral_eq_Suc)
        have lst: "s \<noteq> [] \<Longrightarrow> last body = last s" by (simp add: s_def)
        have t4: "take 4 l = ''nan('' \<longleftrightarrow> s \<noteq> [] \<and> hd s = CHR ''(''"
          using r by (cases s) (auto simp: l to_lower_cases)
        have five: "5 \<le> length body \<longleftrightarrow> s \<noteq> [] \<and> tl s \<noteq> []"
          using len by (cases s; cases "tl s") auto
        have "special_grammar body \<longleftrightarrow>
                s = [] \<or> (hd s = CHR ''('' \<and> tl s \<noteq> [] \<and> last s = CHR '')''
                          \<and> list_all is_nchar (butlast (tl s)))"
          unfolding special_grammar_def Let_def l_def [symmetric] t4 five d4
          using lst r by (cases s) (auto simp: l)
        then have "special_grammar body \<longleftrightarrow> nan_suffix s = length s"
          by (simp add: nan_suffix_full)
        with pat len show ?thesis by auto
      next
        case notC: False
        have "special_pattern neg body = None"
          using notA notB notC by (simp add: special_pattern_def tk)
        moreover have "\<not> special_grammar body"
          using notB notC unfolding special_grammar_def Let_def l_def [symmetric]
          by (auto simp: take_prefix_special)
        ultimately show ?thesis by simp
      qed
    qed
  qed
qed

lemma special_pattern_cases:
  "special_pattern neg body =
     (if map to_lower (take 3 body) = ''inf''
      then Some (if map to_lower (take 8 body) = ''infinity'' then 8 else 3, Infinity neg)
      else if map to_lower (take 3 body) = ''nan'' then Some (3 + nan_suffix (drop 3 body), NaN)
      else None)"
proof -
  have "map to_lower (take 3 body) = ''inf''" if "map to_lower (take 8 body) = ''infinity''"
  proof -
    from that have "take 8 (map to_lower body) = ''infinity''" by (simp add: take_map)
    then obtain r where "map to_lower body = ''infinity'' @ r"
      using take_prefix_special(1) by blast
    then have "take 3 (map to_lower body) = ''inf''" by simp
    then show ?thesis by (simp add: take_map)
  qed
  then show ?thesis by (auto simp: special_pattern_def)
qed

lemma special_not_decimal:
  assumes "map to_lower (take 3 body) = ''inf'' \<or> map to_lower (take 3 body) = ''nan''"
  shows "\<not> decimal_grammar body"
proof -
  from assms obtain c cs where body: "body = c # cs"
    and c: "to_lower c = CHR ''i'' \<or> to_lower c = CHR ''n''"
    by (cases body) auto
  from c have "c \<in> {CHR ''i'', CHR ''I'', CHR ''n'', CHR ''N''}"
    by (auto simp: to_lower_cases)
  then have "\<not> is_exp_char c" "\<not> is_digit c" "c \<noteq> CHR ''.''"
    by (auto simp: is_exp_char_def is_digit_def)
  then show ?thesis
    by (simp add: decimal_grammar_def mantissa_ok_def body)
qed

lemma unsigned_part_eq:
  "unsigned_part t = (if starts_with t CHR ''-'' then tl t else t)"
  "length t = (if starts_with t CHR ''-'' then 1 else 0) + length (unsigned_part t)"
  by (cases t; simp add: unsigned_part_def)+

lemma ValueParser_floating:
  "ValueParser (Floating p emax) t =
     (if float_grammar t then map_option FloatV (float_token_value p emax t) else None)"
proof -
  define neg where "neg = starts_with t CHR ''-''"
  define body where "body = unsigned_part t"
  define off :: nat where "off = (if neg then 1 else 0)"
  have len: "length t = off + length body"
    using unsigned_part_eq(2) [of t] by (simp add: off_def neg_def body_def)
  have fc: "from_chars_float p emax t =
      (case special_pattern neg body of
         Some (n, v) \<Rightarrow> (off + n, errc_ok, v)
       | None \<Rightarrow>
           (case decimal_pattern body of
              None \<Rightarrow> (0, invalid_argument, Finite False 0 0)
            | Some (n, D, x) \<Rightarrow>
                (case round_nearest p emax D x of
                   None \<Rightarrow> (off + n, result_out_of_range, Finite False 0 0)
                 | Some (m, e) \<Rightarrow> (off + n, errc_ok, Finite neg m e))))"
    unfolding from_chars_float_def Let_def neg_def body_def off_def unsigned_part_eq(1)
    by (rule refl)
  have tv: "float_token_value p emax t =
      (if map to_lower (take 3 body) = ''inf'' then Some (Infinity neg)
       else if map to_lower (take 3 body) = ''nan'' then Some NaN
       else
         (case round_nearest p emax (float_digits body) (float_exponent body) of
            None \<Rightarrow> None
          | Some (m, e) \<Rightarrow> Some (Finite neg m e)))"
    unfolding float_token_value_def Let_def neg_def body_def by (rule refl)
  have fg: "float_grammar t \<longleftrightarrow> special_grammar body \<or> decimal_grammar body"
    by (simp add: float_grammar_def body_def)
  show ?thesis
  proof (cases "map to_lower (take 3 body) = ''inf'' \<or> map to_lower (take 3 body) = ''nan''")
    case True
    then obtain n v where sp: "special_pattern neg body = Some (n, v)"
      and v: "v = (if map to_lower (take 3 body) = ''inf'' then Infinity neg else NaN)"
      by (auto simp: special_pattern_cases [of neg body])
    have "float_grammar t \<longleftrightarrow> n = length body"
      using special_not_decimal [OF True] special_pattern_grammar [of body neg] sp
      by (auto simp: fg)
    moreover have "float_token_value p emax t = Some v"
      using True v by (auto simp: tv)
    ultimately show ?thesis
      by (auto simp: ValueParser.simps(4) fc sp len)
  next
    case False
    then have sp: "special_pattern neg body = None"
      by (simp add: special_pattern_cases [of neg body])
    then have ns: "\<not> special_grammar body"
      using special_pattern_grammar [of body neg] by simp
    show ?thesis
    proof (cases "decimal_grammar body")
      case True
      then have "decimal_pattern body = Some (length body, float_digits body, float_exponent body)"
        using decimal_pattern_grammar [of body] by simp
      with True False show ?thesis
        by (auto simp: ValueParser.simps(4) fc sp len fg tv split: option.splits)
    next
      case dg: False
      then have "case decimal_pattern body of None \<Rightarrow> True | Some (n, D, x) \<Rightarrow> n \<noteq> length body"
        using decimal_pattern_grammar [of body] by simp
      with dg ns show ?thesis
        by (auto simp: ValueParser.simps(4) fc sp len fg split: option.splits)
    qed
  qed
qed

subsection \<open>Rounding to the nearest value\<close>

text \<open>
  \<open>round_nearest p emax D x\<close> is the decimal number \<open>D * 10 ^ x\<close> rounded to the format of
  precision \<open>p\<close> and largest exponent \<open>emax\<close>. When it returns a significand \<open>m\<close> and an
  exponent \<open>e\<close>, the number \<open>m * 2 ^ e\<close> is a value of the format (\<open>m\<close> has at most \<open>p\<close>
  bits and all of them unless \<open>e\<close> is the least exponent of the format), it lies within
  half a unit in the last place of the decimal number, and \<open>m\<close> is even when the decimal
  number is half-way between two values. It returns nothing exactly when the decimal
  number is at least half a unit above the largest value of the format, or positive and
  at most half the least positive value.
\<close>

lemma bit_length_bounds: "0 < n \<Longrightarrow> 2 ^ bit_length n \<le> 2 * n \<and> n < 2 ^ bit_length n"
proof (induction n rule: bit_length.induct)
  case (1 n)
  show ?case
  proof (cases "n div 2 = 0")
    case True
    with 1(2) have "n = 1" by simp
    have "bit_length (1::int) = 1"
      by (simp add: bit_length.simps [of 1] bit_length.simps [of 0])
    with \<open>n = 1\<close> show ?thesis by simp
  next
    case False
    with 1(2) have pos: "0 < n div 2" by simp
    from 1(1) [OF _ pos] 1(2)
    have ih: "2 ^ bit_length (n div 2) \<le> 2 * (n div 2)" "n div 2 < 2 ^ bit_length (n div 2)"
      by simp_all
    have bl: "bit_length n = Suc (bit_length (n div 2))"
      using 1(2) by (simp add: bit_length.simps [of n])
    from ih show ?thesis unfolding bl by (simp; presburger)
  qed
qed

lemma scaled_ge_real:
  assumes "0 < M"
  shows "scaled_ge N M k \<longleftrightarrow> (2::real) powi k \<le> of_int N / of_int M"
proof (cases "0 \<le> k")
  case True
  have "(of_int M * 2 ^ nat k \<le> (of_int N :: real)) = (M * 2 ^ nat k \<le> N)"
    by (metis of_int_le_iff of_int_mult of_int_numeral of_int_power)
  with True assms show ?thesis
    by (simp add: scaled_ge_def power_int_def pos_le_divide_eq mult.commute)
next
  case False
  have "((of_int M :: real) \<le> of_int N * 2 ^ nat (- k)) = (M \<le> N * 2 ^ nat (- k))"
    by (metis of_int_le_iff of_int_mult of_int_numeral of_int_power)
  with False assms show ?thesis
    by (simp add: scaled_ge_def power_int_def pos_le_divide_eq field_simps)
qed

lemma binary_exponent:
  fixes N M :: int
  assumes "0 < N" "0 < M"
  defines "k0 \<equiv> int (bit_length N) - int (bit_length M)"
  defines "k \<equiv> (if scaled_ge N M k0 then k0 else k0 - 1)"
  shows "(2::real) powi k \<le> of_int N / of_int M
         \<and> of_int N / of_int M < (2::real) powi (k + 1)"
proof -
  let ?v = "of_int N / of_int M :: real"
  from bit_length_bounds [OF assms(1)]
  have N: "(2::real) ^ bit_length N \<le> 2 * of_int N" "of_int N < (2::real) ^ bit_length N"
    by (metis of_int_le_iff of_int_mult of_int_numeral of_int_power,
        metis of_int_less_iff of_int_numeral of_int_power)
  from bit_length_bounds [OF assms(2)]
  have M: "(2::real) ^ bit_length M \<le> 2 * of_int M" "of_int M < (2::real) ^ bit_length M"
    by (metis of_int_le_iff of_int_mult of_int_numeral of_int_power,
        metis of_int_less_iff of_int_numeral of_int_power)
  have k0: "(2::real) powi k0 = 2 ^ bit_length N / 2 ^ bit_length M"
    by (simp add: k0_def power_int_diff)
  have Mpos: "0 < (of_int M :: real)" using assms(2) by simp
  have Npos: "0 < (of_int N :: real)" using assms(1) by simp
  have up: "?v < 2 powi (k0 + 1)"
  proof -
    have "of_int N * (2::real) ^ bit_length M < 2 ^ bit_length N * (2 * of_int M)"
      using N(2) M(1) Mpos Npos
      by (meson less_le_trans mult_strict_right_mono mult_left_mono zero_less_power
          zero_less_numeral less_imp_le)
    then have "?v < 2 * (2 ^ bit_length N / 2 ^ bit_length M)"
      using Mpos by (simp add: field_simps)
    then show ?thesis by (simp add: power_int_add k0 mult.commute)
  qed
  have low: "2 powi (k0 - 1) \<le> ?v"
  proof -
    have "(2::real) ^ bit_length N * of_int M \<le> 2 * of_int N * 2 ^ bit_length M"
      using N(1) M(2) Mpos Npos
      by (meson mult_mono less_imp_le zero_le_power zero_le_numeral mult_nonneg_nonneg)
    then have "(2 ^ bit_length N / 2 ^ bit_length M) / 2 \<le> ?v"
      using Mpos by (simp add: field_simps)
    then show ?thesis by (simp add: power_int_diff k0)
  qed
  show ?thesis
  proof (cases "scaled_ge N M k0")
    case True
    then show ?thesis using up by (simp add: k_def scaled_ge_real [OF assms(2)])
  next
    case False
    then show ?thesis using low by (simp add: k_def scaled_ge_real [OF assms(2)])
  qed
qed

lemma round_half_even:
  fixes num den :: int
  assumes "0 < den" "0 \<le> num"
  defines "m0 \<equiv> num div den" and "r \<equiv> num mod den"
  defines "m \<equiv> (if den < 2 * r \<or> (2 * r = den \<and> odd m0) then m0 + 1 else m0)"
  shows "\<bar>of_int num / of_int den - (of_int m :: real)\<bar> \<le> 1 / 2"
    and "\<bar>of_int num / of_int den - (of_int m :: real)\<bar> = 1 / 2 \<longrightarrow> even m"
    and "0 \<le> m"
    and "of_int num / (of_int den :: real) < of_int b \<longrightarrow> m \<le> b"
    and "of_int b \<le> of_int num / (of_int den :: real) \<longrightarrow> b \<le> m"
proof -
  have num: "num = den * m0 + r" and r: "0 \<le> r" "r < den"
    using assms(1) by (simp_all add: m0_def r_def)
  have m0: "0 \<le> m0" using assms(1,2) by (simp add: m0_def pos_imp_zdiv_nonneg_iff)
  have dpos: "0 < (of_int den :: real)" using assms(1) by simp
  have q: "of_int num / of_int den - (of_int m :: real) = of_int (num - m * den) / of_int den"
    using dpos by (simp add: field_simps)
  have d: "num - m * den = (if den < 2 * r \<or> (2 * r = den \<and> odd m0) then r - den else r)"
    by (simp add: m_def num algebra_simps)
  have i1: "\<bar>2 * (num - m * den)\<bar> \<le> den"
    unfolding d using r by auto
  have i2: "\<bar>2 * (num - m * den)\<bar> = den \<longrightarrow> even m"
    unfolding d using r by (auto simp: m_def)
  have conv: "\<bar>of_int (num - m * den) / (of_int den :: real)\<bar>
                = of_int \<bar>2 * (num - m * den)\<bar> / of_int den / 2"
  proof -
    have a: "(of_int \<bar>2 * z\<bar> :: real) = 2 * \<bar>of_int z\<bar>" for z :: int
      by (simp add: abs_mult)
    have b: "\<bar>y / of_int den\<bar> = \<bar>y\<bar> / of_int den" for y :: real
      using dpos by (simp add: abs_divide abs_of_pos del: of_int_abs)
    show ?thesis unfolding a b by simp
  qed
  show "\<bar>of_int num / of_int den - (of_int m :: real)\<bar> \<le> 1 / 2"
  proof -
    have "(of_int \<bar>2 * (num - m * den)\<bar> :: real) \<le> of_int den"
      using i1 by (simp only: of_int_le_iff)
    then show ?thesis unfolding q conv using dpos by (simp add: field_simps)
  qed
  show "\<bar>of_int num / of_int den - (of_int m :: real)\<bar> = 1 / 2 \<longrightarrow> even m"
  proof
    assume "\<bar>of_int num / of_int den - (of_int m :: real)\<bar> = 1 / 2"
    then have "(of_int \<bar>2 * (num - m * den)\<bar> :: real) = of_int den"
      unfolding q conv using dpos by (simp add: field_simps)
    then have "\<bar>2 * (num - m * den)\<bar> = den" by (simp only: of_int_eq_iff)
    with i2 show "even m" by simp
  qed
  show "0 \<le> m" using m0 by (simp add: m_def)
  show "of_int num / (of_int den :: real) < of_int b \<longrightarrow> m \<le> b"
  proof
    assume "of_int num / (of_int den :: real) < of_int b"
    then have "(of_int num :: real) < of_int (b * den)"
      using dpos by (simp add: field_simps)
    then have "num < b * den" by (simp only: of_int_less_iff)
    then have "den * m0 + r < den * b" by (simp add: num mult.commute)
    then have "den * m0 < den * b" using r by linarith
    then have "m0 < b" using assms(1) by simp
    then show "m \<le> b" by (simp add: m_def)
  qed
  show "of_int b \<le> of_int num / (of_int den :: real) \<longrightarrow> b \<le> m"
  proof
    assume "of_int b \<le> of_int num / (of_int den :: real)"
    then have "(of_int (b * den) :: real) \<le> of_int num"
      using dpos by (simp add: field_simps)
    then have "b * den \<le> num" by (simp only: of_int_le_iff)
    then have "den * b \<le> den * m0 + r" by (simp add: num mult.commute)
    moreover have "den * (m0 + 1) = den * m0 + den" by (simp add: algebra_simps)
    ultimately have "den * b < den * (m0 + 1)" using r by linarith
    then have "b < m0 + 1" using assms(1) by simp
    then show "b \<le> m" by (simp add: m_def)
  qed
qed

lemma round_nearest_steps:
  fixes D x emax :: int and p :: nat
  assumes D: "0 < D"
  defines "v \<equiv> (of_int D :: real) * 10 powi x"
  shows "\<exists>k m. let e = max (k - int p + 1) (1 - emax - int p + 1) in
           2 powi k \<le> v \<and> v < 2 powi (k + 1)
           \<and> \<bar>v / 2 powi e - of_int m\<bar> \<le> 1 / 2
           \<and> (\<bar>v / 2 powi e - of_int m\<bar> = 1 / 2 \<longrightarrow> even m)
           \<and> 0 \<le> m
           \<and> (\<forall>b. v / 2 powi e < of_int b \<longrightarrow> m \<le> b)
           \<and> (\<forall>b. of_int b \<le> v / 2 powi e \<longrightarrow> b \<le> m)
           \<and> round_nearest p emax D x =
               (if m = 2 ^ p
                then if emax - int p + 1 < e + 1 then None else Some (2 ^ (p - 1), e + 1)
                else if m = 0 \<or> emax - int p + 1 < e then None else Some (m, e))"
proof -
  define N where "N = (if 0 \<le> x then D * 10 ^ nat x else D)"
  define M :: int where "M = (if 0 \<le> x then 1 else 10 ^ nat (- x))"
  define k0 where "k0 = int (bit_length N) - int (bit_length M)"
  define k where "k = (if scaled_ge N M k0 then k0 else k0 - 1)"
  define e where "e = max (k - int p + 1) (1 - emax - int p + 1)"
  define num where "num = (if 0 \<le> e then N else N * 2 ^ nat (- e))"
  define den where "den = (if 0 \<le> e then M * 2 ^ nat e else M)"
  define m0 where "m0 = num div den"
  define r where "r = num mod den"
  define m where "m = (if den < 2 * r \<or> (2 * r = den \<and> odd m0) then m0 + 1 else m0)"
  have rn: "round_nearest p emax D x =
      (if (if m = 2 ^ p then 2 ^ (p - 1) else m) = 0
          \<or> emax - int p + 1 < (if m = 2 ^ p then e + 1 else e) then None
       else Some (if m = 2 ^ p then 2 ^ (p - 1) else m, if m = 2 ^ p then e + 1 else e))"
  proof -
    from D have D0: "(D = 0) = False" by simp
    show ?thesis
      unfolding round_nearest_def Let_def m_def m0_def r_def num_def den_def e_def k_def k0_def
        N_def M_def D0 if_False
      by (rule refl)
  qed
  have rn': "round_nearest p emax D x =
               (if m = 2 ^ p
                then if emax - int p + 1 < e + 1 then None else Some (2 ^ (p - 1), e + 1)
                else if m = 0 \<or> emax - int p + 1 < e then None else Some (m, e))"
    unfolding rn by simp
  have Npos: "0 < N" and Mpos: "0 < M"
    using D by (simp_all add: N_def M_def)
  have NM: "of_int N / of_int M = v"
    by (simp add: N_def M_def v_def power_int_def power_inverse field_simps)
  have "2 powi k \<le> v \<and> v < 2 powi (k + 1)"
    using binary_exponent [OF Npos Mpos] unfolding k_def k0_def NM .
  then have kb: "2 powi k \<le> v" "v < 2 powi (k + 1)"
    by blast+
  have dpos: "0 < den" and nnn: "0 \<le> num"
    using Npos Mpos by (simp_all add: den_def num_def)
  have nd: "of_int num / of_int den = v / 2 powi e"
    unfolding NM [symmetric]
    by (simp add: num_def den_def power_int_def power_inverse field_simps)
  note rh = round_half_even [OF dpos nnn, folded m0_def r_def, folded m_def, unfolded nd]
  have "let e = max (k - int p + 1) (1 - emax - int p + 1) in
           2 powi k \<le> v \<and> v < 2 powi (k + 1)
           \<and> \<bar>v / 2 powi e - of_int m\<bar> \<le> 1 / 2
           \<and> (\<bar>v / 2 powi e - of_int m\<bar> = 1 / 2 \<longrightarrow> even m)
           \<and> 0 \<le> m
           \<and> (\<forall>b. v / 2 powi e < of_int b \<longrightarrow> m \<le> b)
           \<and> (\<forall>b. of_int b \<le> v / 2 powi e \<longrightarrow> b \<le> m)
           \<and> round_nearest p emax D x =
               (if m = 2 ^ p
                then if emax - int p + 1 < e + 1 then None else Some (2 ^ (p - 1), e + 1)
                else if m = 0 \<or> emax - int p + 1 < e then None else Some (m, e))"
    unfolding Let_def e_def [symmetric]
    by (intro conjI allI) (rule kb rh rn')+
  then show ?thesis by blast
qed

lemma round_nearest_Some:
  fixes D x emax m e :: int and p :: nat
  assumes rn: "round_nearest p emax D x = Some (m, e)" and D: "0 < D" and p: "0 < p"
  defines "v \<equiv> (of_int D :: real) * 10 powi x"
  shows "0 < m \<and> m < 2 ^ p \<and> 2 - emax - int p \<le> e \<and> e \<le> emax - int p + 1
         \<and> (2 ^ (p - 1) \<le> m \<or> e = 2 - emax - int p)
         \<and> \<bar>v - of_int m * 2 powi e\<bar> \<le> 2 powi e / 2
         \<and> (\<bar>v - of_int m * 2 powi e\<bar> = 2 powi e / 2 \<longrightarrow> even m)"
proof -
  from round_nearest_steps [OF D, of p emax x, folded v_def]
  obtain k m1 e1 where e1: "e1 = max (k - int p + 1) (1 - emax - int p + 1)"
    and lo: "2 powi k \<le> v" and hi: "v < 2 powi (k + 1)"
    and near: "\<bar>v / 2 powi e1 - of_int m1\<bar> \<le> 1 / 2"
    and tie: "\<bar>v / 2 powi e1 - of_int m1\<bar> = 1 / 2 \<longrightarrow> even m1"
    and m1: "0 \<le> m1"
    and above: "\<And>b. v / 2 powi e1 < of_int b \<Longrightarrow> m1 \<le> b"
    and below: "\<And>b. of_int b \<le> v / 2 powi e1 \<Longrightarrow> b \<le> m1"
    and res: "round_nearest p emax D x =
               (if m1 = 2 ^ p
                then if emax - int p + 1 < e1 + 1 then None else Some (2 ^ (p - 1), e1 + 1)
                else if m1 = 0 \<or> emax - int p + 1 < e1 then None else Some (m1, e1))"
    unfolding Let_def by blast
  have pe: "0 < (2::real) powi j" for j by simp
  have le2p: "m1 \<le> 2 ^ p"
  proof (rule above)
    have "k + 1 \<le> e1 + int p" by (simp add: e1)
    then have "(2::real) powi (k + 1) \<le> 2 powi (e1 + int p)"
      by (rule power_int_increasing) simp
    also have "\<dots> = 2 powi e1 * 2 ^ p" by (simp add: power_int_add)
    finally have "v < 2 powi e1 * 2 ^ p" using hi by simp
    then show "v / 2 powi e1 < of_int (2 ^ p)"
      using pe [of e1] by (simp add: field_simps)
  qed
  have normal: "2 ^ (p - 1) \<le> m1" if "e1 = k - int p + 1"
  proof (rule below)
    have "k = e1 + int (p - 1)" using that p by (simp add: of_nat_diff)
    then have "(2::real) powi k = 2 powi e1 * 2 ^ (p - 1)"
      by (simp add: power_int_add)
    then have "2 powi e1 * 2 ^ (p - 1) \<le> v" using lo by simp
    then show "of_int (2 ^ (p - 1)) \<le> v / 2 powi e1"
      using pe [of e1] by (simp add: field_simps)
  qed
  have emin: "e1 = 2 - emax - int p" if "e1 \<noteq> k - int p + 1"
    using that by (simp add: e1 max_def split: if_splits)
  have dist: "\<bar>v - of_int m1 * 2 powi e1\<bar> = 2 powi e1 * \<bar>v / 2 powi e1 - of_int m1\<bar>"
  proof -
    have "v - of_int m1 * 2 powi e1 = 2 powi e1 * (v / 2 powi e1 - of_int m1)"
      using pe [of e1] by (simp add: field_simps)
    then show ?thesis using pe [of e1] by (simp add: abs_mult)
  qed
  have near': "\<bar>v - of_int m1 * 2 powi e1\<bar> \<le> 2 powi e1 / 2"
    unfolding dist using near pe [of e1] by (simp add: field_simps)
  have tie': "\<bar>v - of_int m1 * 2 powi e1\<bar> = 2 powi e1 / 2 \<longrightarrow> even m1"
    unfolding dist using tie pe [of e1] by (simp add: field_simps)
  have ge_emin: "2 - emax - int p \<le> e1" by (simp add: e1)
  show ?thesis
  proof (cases "m1 = 2 ^ p")
    case True
    with rn res have m: "m = 2 ^ (p - 1)" and e: "e = e1 + 1" and em: "e \<le> emax - int p + 1"
      by (auto split: if_splits)
    have two: "(2::real) powi e = 2 * 2 powi e1" by (simp add: e power_int_add)
    have pw: "(2::real) ^ p = 2 * 2 ^ (p - 1)" using p by (cases p) simp_all
    have same: "(of_int m :: real) * 2 powi e = of_int m1 * 2 powi e1"
      by (simp add: m True two pw)
    have same': "\<bar>v - of_int m * 2 powi e\<bar> = \<bar>v - of_int m1 * 2 powi e1\<bar>"
      by (simp only: same)
    have "m < 2 ^ p" using p by (simp add: m power_strict_increasing_iff)
    moreover have "0 < m" by (simp add: m)
    moreover have "\<bar>v - of_int m * 2 powi e\<bar> \<le> 2 powi e / 2"
      using same' two near' pe [of e1] by linarith
    moreover have "\<bar>v - of_int m * 2 powi e\<bar> \<noteq> 2 powi e / 2"
      using same' two near' pe [of e1] by linarith
    ultimately show ?thesis using em ge_emin by (simp add: e m)
  next
    case False
    with rn res have m: "m = m1" and e: "e = e1" and em: "e \<le> emax - int p + 1"
      and nz: "m1 \<noteq> 0"
      by (auto split: if_splits)
    have "m < 2 ^ p" using le2p False by (simp add: m)
    moreover have "0 < m" using m1 nz by (simp add: m)
    moreover have "2 ^ (p - 1) \<le> m \<or> e = 2 - emax - int p"
      using normal emin by (auto simp: m e)
    ultimately show ?thesis using em ge_emin near' tie' by (simp add: e m)
  qed
qed

lemma round_nearest_None:
  fixes D x emax :: int and p :: nat
  assumes rn: "round_nearest p emax D x = None" and D: "0 \<le> D" and p: "0 < p"
    and emax: "0 < emax"
  defines "v \<equiv> (of_int D :: real) * 10 powi x"
  shows "(2 ^ p - 1 / 2) * 2 powi (emax - int p + 1) \<le> v
         \<or> (0 < v \<and> v \<le> 2 powi (2 - emax - int p) / 2)"
proof -
  have "D \<noteq> 0"
  proof
    assume "D = 0"
    then have "round_nearest p emax D x = Some (0, 0)" by (simp add: round_nearest_def)
    with rn show False by simp
  qed
  with D have D: "0 < D" by simp
  from round_nearest_steps [OF D, of p emax x, folded v_def]
  obtain k m1 e1 where e1: "e1 = max (k - int p + 1) (1 - emax - int p + 1)"
    and lo: "2 powi k \<le> v" and hi: "v < 2 powi (k + 1)"
    and near: "\<bar>v / 2 powi e1 - of_int m1\<bar> \<le> 1 / 2"
    and m1: "0 \<le> m1"
    and below: "\<And>b. of_int b \<le> v / 2 powi e1 \<Longrightarrow> b \<le> m1"
    and res: "round_nearest p emax D x =
               (if m1 = 2 ^ p
                then if emax - int p + 1 < e1 + 1 then None else Some (2 ^ (p - 1), e1 + 1)
                else if m1 = 0 \<or> emax - int p + 1 < e1 then None else Some (m1, e1))"
    unfolding Let_def by blast
  have pe: "0 < (2::real) powi j" for j by simp
  have vpos: "0 < v" using D by (simp add: v_def)
  have normal: "2 ^ (p - 1) \<le> m1" if "e1 = k - int p + 1"
  proof (rule below)
    have "k = e1 + int (p - 1)" using that p by (simp add: of_nat_diff)
    then have "(2::real) powi k = 2 powi e1 * 2 ^ (p - 1)"
      by (simp add: power_int_add)
    then have "2 powi e1 * 2 ^ (p - 1) \<le> v" using lo by simp
    then show "of_int (2 ^ (p - 1)) \<le> v / 2 powi e1"
      using pe [of e1] by (simp add: field_simps)
  qed
  have emin: "e1 = 2 - emax - int p" if "e1 \<noteq> k - int p + 1"
    using that by (simp add: e1 max_def split: if_splits)
  have half: "(1 / 2 :: real) \<le> 2 ^ p" 
    by (rule order_trans [of _ 1]) simp_all
  let ?eM = "emax - int p + 1"
  have big: "(2 ^ p - 1 / 2) * 2 powi ?eM \<le> v" if "?eM < e1" "e1 = k - int p + 1"
  proof -
    have "?eM + int p \<le> k" using that by simp
    then have "(2::real) powi (?eM + int p) \<le> 2 powi k"
      by (rule power_int_increasing) simp
    moreover have "(2::real) powi (?eM + int p) = 2 powi ?eM * 2 powi int p"
      by (rule power_int_add) simp
    moreover have "(2::real) powi int p = 2 ^ p"
      by (rule power_int_of_nat)
    ultimately have "2 ^ p * 2 powi ?eM \<le> v"
      using lo by (simp only: mult.commute)
    moreover have "((2::real) ^ p - 1 / 2) * 2 powi ?eM \<le> 2 ^ p * 2 powi ?eM"
      by (rule mult_right_mono) simp_all
    ultimately show ?thesis by linarith
  qed
  have small_e: "e1 = k - int p + 1" if "?eM < e1"
    using that emax emin by (cases "e1 = k - int p + 1") simp_all
  show ?thesis
  proof (cases "m1 = 2 ^ p")
    case True
    with rn res have ov: "?eM < e1 + 1" by (auto split: if_splits)
    show ?thesis
    proof (cases "?eM < e1")
      case True
      then show ?thesis using big small_e by blast
    next
      case False
      with ov have e: "e1 = ?eM" by simp
      have "of_int m1 - 1 / 2 \<le> v / 2 powi e1" using near by linarith
      then have "(of_int m1 - 1 / 2) * 2 powi e1 \<le> v"
        using pe [of e1] by (simp add: field_simps)
      then show ?thesis by (simp add: True e [symmetric])
    qed
  next
    case False
    with rn res have c: "m1 = 0 \<or> ?eM < e1" by (auto split: if_splits)
    show ?thesis
    proof (cases "?eM < e1")
      case True
      then show ?thesis using big small_e by blast
    next
      case nov: False
      with c have z: "m1 = 0" by simp
      have "e1 \<noteq> k - int p + 1" using normal z by auto
      then have e: "e1 = 2 - emax - int p" by (rule emin)
      have "v / 2 powi e1 \<le> 1 / 2" using near z by simp
      then have "v \<le> 2 powi e1 / 2"
        using pe [of e1] by (simp add: field_simps)
      then show ?thesis using vpos by (simp add: e)
    qed
  qed
qed

subsection \<open>The struct along the scan\<close>

lemma assign_upd: "assign m ty f x = m(f := assign m ty f x f)"
  by (cases ty) simp_all

lemma tryParseOption_ok:
  assumes "tryParseOption Options argv arg i m = (res, i', m')" and "isOk res"
  shows "\<exists>opt. first_match Options (option_name arg) = Some opt
               \<and> m' = m(o_field opt := m' (o_field opt))"
proof (cases "first_match Options (option_name arg)")
  case None
  with assms show ?thesis by (auto simp: tryParseOption_first_match)
next
  case (Some opt)
  have "m' = m(o_field opt := m' (o_field opt))"
    using assms assign_upd [of m "o_type opt" "o_field opt"]
    unfolding tryParseOption_matched [OF Some]
    by (auto split: if_splits option.splits)
  with Some show ?thesis by simp
qed

lemma tryParseOption_failed:
  assumes "tryParseOption Options argv arg i m = (res, i', m')" and "\<not> isOk res"
  shows "m' = m"
proof (cases "first_match Options (option_name arg)")
  case None
  with assms show ?thesis by (auto simp: tryParseOption_first_match)
next
  case (Some opt)
  show ?thesis
    using assms unfolding tryParseOption_matched [OF Some]
    by (auto split: if_splits option.splits)
qed

lemma parse_body_Return:
  assumes "parse_body Options argv i pos vas m = Return r m'"
  shows "m' = m \<and> \<not> isOk r"
proof (cases "argv ! i = ''--''")
  case True
  with assms show ?thesis by (simp add: parse_body_separator)
next
  case sep: False
  show ?thesis
  proof (cases "starts_with (argv ! i) CHR ''-''")
    case True
    with assms sep tryParseOption_failed [of Options argv "argv ! i" i m] show ?thesis
      by (auto simp: parse_body_option split: prod.splits if_splits)
  next
    case False
    with assms show ?thesis
      by (auto simp: parse_body_positional tryParsePositional_eq
               split: prod.splits if_splits option.splits)
  qed
qed

lemma parse_body_Continue_option:
  assumes "parse_body Options argv i pos vas m = Continue_loop i' pos' m'"
    and "starts_with (argv ! i) CHR ''-''"
  shows "\<exists>opt. first_match Options (option_name (argv ! i)) = Some opt
               \<and> m' = m(o_field opt := m' (o_field opt))"
proof -
  from assms have sep: "argv ! i \<noteq> ''--''" by (auto simp: parse_body_separator)
  obtain res j m'' where t: "tryParseOption Options argv (argv ! i) i m = (res, j, m'')"
    by (metis prod_cases3)
  with assms sep have "isOk res" "m'' = m'"
    by (auto simp: parse_body_option split: if_splits)
  with tryParseOption_ok [OF t] show ?thesis by simp
qed

lemma parse_body_Continue_positional:
  assumes "parse_body Options argv i pos vas m = Continue_loop i' pos' m'"
    and "\<not> starts_with (argv ! i) CHR ''-''"
  shows "pos < length (declared_args Options)
         \<and> m' = m(a_field (declared_args Options ! pos)
                     := m' (a_field (declared_args Options ! pos)))"
  using assms
    assign_upd [of m "a_type (declared_args Options ! pos)" "a_field (declared_args Options ! pos)"]
  by (auto simp: parse_body_positional tryParsePositional_eq
           split: prod.splits if_splits option.splits)

lemma replay_snoc: "replay (ws @ [(f, c)]) init = (replay ws init)(f := c)"
  by (simp add: replay_def)

lemma scan_replay: "scan Options argv init ws i pos m \<Longrightarrow> m = replay ws init"
proof (induction rule: scan.induct)
  case scan_start
  show ?case by (simp add: replay_def)
next
  case (scan_option ws i pos m i' pos' m' opt)
  from parse_body_Continue_option [OF scan_option(4,3)] scan_option(5)
  have "m' = m(o_field opt := m' (o_field opt))" by simp
  with scan_option.IH show ?case by (simp add: replay_snoc)
next
  case (scan_positional ws i pos m i' pos' m')
  from parse_body_Continue_positional [OF scan_positional(4,3)] scan_positional.IH
  show ?case by (simp add: replay_snoc)
qed

lemma replay_untouched: "f \<notin> fst ` set ws \<Longrightarrow> replay ws init f = init f"
  by (induction ws rule: rev_induct) (auto simp: replay_def)


lemma parse_body_Break:
  assumes "parse_body Options argv i pos vas m = Break_loop pos1 vas1 m1"
  shows "pos1 = pos \<and> m1 = m"
  using assms
  by (auto simp: parse_body_def Let_def tryParsePositional_eq
           split: if_splits prod.splits option.splits)

lemma parse_loop_scan:
  "scan Options argv init ws i pos m \<Longrightarrow>
   parse_loop Options argv i pos (- 1) m = (ro, pos', vas', m') \<Longrightarrow>
   \<exists>ws' j. scan Options argv init ws' j pos' m'
     \<and> (case ro of
          Some r \<Rightarrow> j < length argv \<and> parse_body Options argv j pos' (- 1) m' = Return r m'
        | None \<Rightarrow>
            (\<not> j < length argv \<and> vas' = - 1)
            \<or> (j < length argv
                \<and> parse_body Options argv j pos' (- 1) m' = Break_loop pos' vas' m'))"
proof (induction Options argv i pos "- 1 :: int" m arbitrary: ws rule: parse_loop.induct)
  case (1 Options argv i pos m)
  show ?case
  proof (cases "i < length argv")
    case False
    with "1.prems" show ?thesis
      by (subst (asm) parse_loop.simps) auto
  next
    case lt: True
    show ?thesis
    proof (cases "parse_body Options argv i pos (- 1) m")
      case (Continue_loop i1 pos1 m1)
      have next_scan: "\<exists>ws1. scan Options argv init ws1 (i1 + 1) pos1 m1"
      proof (cases "starts_with (argv ! i) CHR ''-''")
        case True
        from parse_body_Continue_option [OF Continue_loop True]
        obtain opt where "first_match Options (option_name (argv ! i)) = Some opt" by blast
        from scan_option [OF "1.prems"(1) lt True Continue_loop this] show ?thesis by blast
      next
        case False
        from parse_body_Continue_positional [OF Continue_loop False]
        have "pos < length (declared_args Options)" by simp
        from scan_positional [OF "1.prems"(1) lt False Continue_loop this] show ?thesis by blast
      qed
      then obtain ws1 where s1: "scan Options argv init ws1 (i1 + 1) pos1 m1" by blast
      from "1.prems"(2) lt Continue_loop
      have "parse_loop Options argv (i1 + 1) pos1 (- 1) m1 = (ro, pos', vas', m')"
        by (subst (asm) parse_loop.simps) simp
      from "1.hyps" [OF lt Continue_loop s1 this] show ?thesis .
    next
      case (Break_loop pos1 vas1 m1)
      with "1.prems"(2) lt have "ro = None" "pos' = pos1" "m' = m1" "vas' = vas1"
        by (subst (asm) parse_loop.simps, simp)+
      moreover from parse_body_Break [OF Break_loop] have "pos1 = pos \<and> m1 = m" .
      ultimately show ?thesis using "1.prems"(1) lt Break_loop by auto
    next
      case (Return r m1)
      with "1.prems"(2) lt have "ro = Some r" "pos' = pos" "m' = m1"
        by (subst (asm) parse_loop.simps, simp)+
      moreover from parse_body_Return [OF Return] have "m1 = m" by simp
      ultimately show ?thesis using "1.prems"(1) lt Return by auto
    qed
  qed
qed

subsection \<open>The check of the required slots\<close>

text \<open>
  When every declared positional slot has a name, \<^verbatim>\<open>checkRequired\<close> reports the first
  required slot that the fill count has not reached.
\<close>

lemma checkRequired_named:
  assumes "\<forall>a \<in> set (declared_args Options). a_name a \<noteq> []"
  shows "checkRequired Options count =
           (case first_unmet Options count of
              None \<Rightarrow> success
            | Some a \<Rightarrow> failure MissingRequiredArg (a_name a))"
proof (cases "first_unmet Options count")
  case None
  then show ?thesis by (simp add: checkRequired_eq)
next
  case (Some a)
  then have "a \<in> set (declared_args Options)"
    by (auto simp: first_unmet_def find_Some_iff in_set_conv_nth nth_enumerate_eq)
  with assms Some show ?thesis by (simp add: checkRequired_eq)
qed

section \<open>Value coercion\<close>

text \<open>
  C7. Boolean coercion gives true exactly on the five spellings true, 1, yes, on, y,
  false exactly on false, 0, no, off, n (compared as they are written, so case
  matters), and fails on every other token.
\<close>

theorem ValueParser_bool:
  "(ValueParser Bool t = Some (BoolV True)
      \<longleftrightarrow> t \<in> {''true'', ''1'', ''yes'', ''on'', ''y''})
   \<and> (ValueParser Bool t = Some (BoolV False)
      \<longleftrightarrow> t \<in> {''false'', ''0'', ''no'', ''off'', ''n''})
   \<and> (ValueParser Bool t = None
      \<longleftrightarrow> t \<notin> {''true'', ''1'', ''yes'', ''on'', ''y''}
          \<and> t \<notin> {''false'', ''0'', ''no'', ''off'', ''n''})
   \<and> ValueParser Bool ''True'' = None \<and> ValueParser Bool ''YES'' = None"
  by (auto simp: ValueParser.simps)

text \<open>
  C3. Numeric coercion does not succeed on every token that the numeric grammar consumes
  as a whole: \<^verbatim>\<open>ValueParser\<close> also requires the error code of \<^verbatim>\<open>std::from_chars\<close> to be
  clear, so a token whose value the target type cannot hold is refused. The token
  9999999999 is all digits and \<^verbatim>\<open>std::from_chars\<close> consumes all of it, and its coercion
  to a 32-bit \<^verbatim>\<open>int\<close> fails. In the same way 1e39 is a decimal number with an exponent,
  consumed as a whole, and its coercion to a \<^verbatim>\<open>float\<close> fails.
\<close>

theorem numeric_coercion_counterexample:
  "integer_grammar True ''9999999999''
   \<and> from_chars True 32 ''9999999999'' = (length ''9999999999'', result_out_of_range, 0)
   \<and> ValueParser (Integer True 32) ''9999999999'' = None
   \<and> float_grammar ''1e39''
   \<and> from_chars_float 24 127 ''1e39'' = (length ''1e39'', result_out_of_range, Finite False 0 0)
   \<and> ValueParser (Floating 24 127) ''1e39'' = None"
  by code_simp

text \<open>
  C3 with the range of the type taken into account, for the integer and the
  floating-point types: coercion succeeds exactly when the whole token matches the
  numeric grammar of the type and the number it denotes is in the range of the type.
  The result is then the value of the type for that number: the number itself for an
  integer type, the nearest value of the type for a floating-point type. The empty token
  and 12abc fail for every numeric type. -50 gives \<open>-50\<close> as an \<^verbatim>\<open>int\<close>; 9999999999 gives
  that number as a 64-bit integer and fails as a 32-bit one; 3.14 succeeds as a \<^verbatim>\<open>float\<close>
  with \<open>13170115 / 2 ^ 22\<close> and as a \<^verbatim>\<open>double\<close> with \<open>7070651414971679 / 2 ^ 51\<close>, the
  values of the literals \<^verbatim>\<open>3.14f\<close> and \<^verbatim>\<open>3.14\<close>.
\<close>

theorem numeric_coercion:
  "ValueParser (Integer sg w) t =
     (if integer_grammar sg t \<and> representable sg w (token_value t)
      then Some (IntV (token_value t)) else None)
   \<and> ValueParser (Floating p emax) t =
     (if float_grammar t \<and> float_token_value p emax t \<noteq> None
      then map_option FloatV (float_token_value p emax t) else None)
   \<and> ValueParser (Integer sg w) [] = None
   \<and> ValueParser (Floating p emax) [] = None
   \<and> ValueParser (Integer sg w) ''12abc'' = None
   \<and> ValueParser (Floating p emax) ''12abc'' = None
   \<and> ValueParser (Integer True 32) ''-50'' = Some (IntV (- 50))
   \<and> ValueParser (Integer True 64) ''9999999999'' = Some (IntV 9999999999)
   \<and> ValueParser (Integer True 32) ''9999999999'' = None
   \<and> ValueParser (Floating 24 127) ''3.14'' = Some (FloatV (Finite False 13170115 (- 22)))
   \<and> ValueParser (Floating 53 1023) ''3.14''
       = Some (FloatV (Finite False 7070651414971679 (- 51)))
   \<and> ValueParser (Floating 24 127) ''1e39'' = None"
proof -
  have g: "\<not> integer_grammar sg []" "\<not> integer_grammar sg ''12abc''"
    "integer_grammar True ''-50''" "integer_grammar True ''9999999999''"
    by (simp_all add: integer_grammar_def is_digit_def)
  have v: "token_value ''-50'' = - 50" "token_value ''9999999999'' = 9999999999"
    by (simp_all add: token_value_def digit_val_def)
  have fg: "\<not> float_grammar []" "\<not> float_grammar ''12abc''"
    by code_simp+
  have i: "ValueParser (Integer sg w) [] = None"
    "ValueParser (Integer sg w) ''12abc'' = None"
    "ValueParser (Integer True 32) ''-50'' = Some (IntV (- 50))"
    "ValueParser (Integer True 64) ''9999999999'' = Some (IntV 9999999999)"
    "ValueParser (Integer True 32) ''9999999999'' = None"
    unfolding ValueParser_integer by (simp_all add: g v representable_def)
  have f: "ValueParser (Floating p emax) [] = None"
    "ValueParser (Floating p emax) ''12abc'' = None"
    unfolding ValueParser_floating by (simp_all add: fg)
  have c: "ValueParser (Floating 24 127) ''3.14'' = Some (FloatV (Finite False 13170115 (- 22)))"
    "ValueParser (Floating 53 1023) ''3.14''
       = Some (FloatV (Finite False 7070651414971679 (- 51)))"
    "ValueParser (Floating 24 127) ''1e39'' = None"
    by code_simp+
  have fl: "ValueParser (Floating p emax) t =
     (if float_grammar t \<and> float_token_value p emax t \<noteq> None
      then map_option FloatV (float_token_value p emax t) else None)"
    unfolding ValueParser_floating by auto
  show ?thesis
    by (intro conjI) (rule ValueParser_integer fl i f c)+
qed

section \<open>The parsing algorithm\<close>

text \<open>
  The theorems below are about \<open>parse_from\<close> at an arbitrary state of the loop: the scan
  stands at token \<open>i\<close> with \<open>pos\<close> positional slots filled and the struct \<open>m\<close>;
  \<^verbatim>\<open>varArgsStart\<close> is \<open>-1\<close> as long as the loop runs.
\<close>

text \<open>
  C2. When the scanned token is the separator \<open>--\<close> and a further token exists, the
  scan stops at once and the tokens after the separator are handed to \<^verbatim>\<open>setVarArgs\<close>:
  the member of the declared variadic slot becomes the slice of all tokens after the
  separator, in their order and whatever they look like. The outcome is that of the
  check of the required slots. When no token follows, the scan stops and the struct is
  left as it is.
\<close>

theorem separator_starts_variadic_slice:
  assumes "i < length argv" and "argv ! i = ''--''"
  shows "(i + 1 < length argv \<longrightarrow>
            parse_from Options argv i pos (- 1) m =
              (checkRequired Options pos, setVarArgs Options argv (i + 1) m))
         \<and> (hasVarArgs Options \<longrightarrow>
              setVarArgs Options argv (i + 1) m =
                m(v_field (last (declared_varargs Options)) := Span (drop (i + 1) argv)))
         \<and> (\<not> i + 1 < length argv \<longrightarrow>
              parse_from Options argv i pos (- 1) m = (checkRequired Options pos, m))"
  using assms by (simp add: parse_from_step parse_body_separator setVarArgs_eq)

theorem separator_starts_variadic_slice_witness:
  "parse VarArgsOptions [''prog'', ''cmd'', ''--'', ''-a'', ''b''] VarArgsOptions_init =
     (success, VarArgsOptions_init(0 := Value (StringV ''cmd''), 1 := Span [''-a'', ''b'']))
   \<and> parse VarArgsOptions [''prog'', ''cmd'', ''--''] VarArgsOptions_init =
     (success, VarArgsOptions_init(0 := Value (StringV ''cmd'')))"
proof -
  let ?m = "VarArgsOptions_init(0 := Value (StringV ''cmd''))"
  have first: "parse VarArgsOptions argv VarArgsOptions_init = parse_from VarArgsOptions argv 2 1 (- 1) ?m"
    if "argv ! 1 = ''cmd''" and "1 < length argv" for argv
    using that
    by (simp add: parse_def parse_from_step parse_body_positional tryParsePositional_eq
          VarArgsOptions_def numeral_2_eq_2)
  have req: "checkRequired VarArgsOptions (Suc 0) = success"
    by (simp add: checkRequired_eq first_unmet_None VarArgsOptions_def)
  have var: "hasVarArgs VarArgsOptions" "v_field (last (declared_varargs VarArgsOptions)) = 1"
    by (simp_all add: hasVarArgs_eq VarArgsOptions_def)
  show ?thesis
    using separator_starts_variadic_slice
            [of 2 "[''prog'', ''cmd'', ''--'', ''-a'', ''b'']" VarArgsOptions 1 ?m]
          separator_starts_variadic_slice
            [of 2 "[''prog'', ''cmd'', ''--'']" VarArgsOptions 1 ?m]
    by (simp add: first req var)
qed

text \<open>
  C10. When no variadic slot is declared and the scanned token is the separator \<open>--\<close>,
  the scan stops there and the tokens after the separator are dropped: they raise no
  error, nothing is assigned and the struct is unchanged. The outcome is that of the
  check of the required slots at the fill count reached before the separator, and it is
  the outcome for the token list cut off after the separator.
\<close>

theorem separator_without_variadic_slot:
  assumes "i < length argv" and "argv ! i = ''--''" and "\<not> hasVarArgs Options"
  shows "parse_from Options argv i pos (- 1) m = (checkRequired Options pos, m)
         \<and> parse_from Options argv i pos (- 1) m
             = parse_from Options (take (i + 1) argv) i pos (- 1) m"
  using assms by (simp add: parse_from_step parse_body_separator setVarArgs_eq)

theorem separator_without_variadic_slot_witness:
  "parse SimpleOptions [''prog'', ''myname'', ''--'', ''extra'', ''--bad''] SimpleOptions_init =
     (success, SimpleOptions_init(2 := Value (StringV ''myname'')))
   \<and> parse SimpleOptions [''prog'', ''--'', ''myname''] SimpleOptions_init =
     (failure MissingRequiredArg ''name'', SimpleOptions_init)"
proof -
  let ?m = "SimpleOptions_init(2 := Value (StringV ''myname''))"
  let ?argv = "[''prog'', ''myname'', ''--'', ''extra'', ''--bad'']"
  have first: "parse SimpleOptions ?argv SimpleOptions_init
                 = parse_from SimpleOptions ?argv 2 (Suc 0) (- 1) ?m"
    by (simp add: parse_def parse_from_step parse_body_positional tryParsePositional_eq
          SimpleOptions_def numeral_2_eq_2)
  have req: "checkRequired SimpleOptions (Suc 0) = success"
    "checkRequired SimpleOptions 0 = failure MissingRequiredArg ''name''"
    by (simp_all add: checkRequired_eq first_unmet_def SimpleOptions_def)
  have second: "parse SimpleOptions [''prog'', ''--'', ''myname''] SimpleOptions_init
                  = parse_from SimpleOptions [''prog'', ''--'', ''myname''] (Suc 0) 0 (- 1)
                      SimpleOptions_init"
    by (simp add: parse_def)
  have var: "\<not> hasVarArgs SimpleOptions"
    by (simp add: hasVarArgs_eq SimpleOptions_def)
  show ?thesis
    using separator_without_variadic_slot [of 2 ?argv SimpleOptions "Suc 0" ?m]
          separator_without_variadic_slot
            [of 1 "[''prog'', ''--'', ''myname'']" SimpleOptions 0 SimpleOptions_init]
    by (simp add: first second req var)
qed












text \<open>
  C9. When \<open>parse()\<close> fails, the scan has processed some tokens without error and the
  struct \<open>m\<close> it has reached is the default struct with the writes of those tokens
  applied in order: every member no token wrote holds its default, and nothing is rolled
  back. Either the next token fails, and then \<open>parse()\<close> returns the error of that
  token at once with the struct \<open>m\<close> as it is. Or the scan has ended there, by the end
  of the tokens or by a \<^verbatim>\<open>break\<close> at the next token, and the check of the required
  slots fails: then the struct is \<open>m\<close>, with the member of the variadic slot set where
  the \<^verbatim>\<open>break\<close> gave a start of the slice.
\<close>

theorem fail_fast_no_rollback:
  assumes "parse Options argv init = (r, mf)" and "\<not> isOk r"
  shows "\<exists>ws i pos m.
           scan Options argv init ws i pos m \<and> m = replay ws init
           \<and> (\<forall>f. f \<notin> fst ` set ws \<longrightarrow> m f = init f)
           \<and> ((i < length argv \<and> parse_body Options argv i pos (- 1) m = Return r m \<and> mf = m)
              \<or> (r = checkRequired Options pos \<and> error r = MissingRequiredArg
                  \<and> (\<forall>f. mf f \<noteq> m f \<longrightarrow>
                        hasVarArgs Options \<and> f = v_field (last (declared_varargs Options)))
                  \<and> ((\<not> i < length argv \<and> mf = m)
                      \<or> (i < length argv
                          \<and> (\<exists>vas. parse_body Options argv i pos (- 1) m = Break_loop pos vas m
                                \<and> mf = (if 0 \<le> vas then setVarArgs Options argv (nat vas) m
                                        else m))))))"
proof -
  obtain ro pos' vas' m' where loop: "parse_loop Options argv 1 0 (- 1) init = (ro, pos', vas', m')"
    by (metis prod_cases4)
  from parse_loop_scan [OF scan_start loop]
  obtain ws j where sc: "scan Options argv init ws j pos' m'"
    and out: "case ro of
                Some r \<Rightarrow> j < length argv \<and> parse_body Options argv j pos' (- 1) m' = Return r m'
              | None \<Rightarrow>
                  (\<not> j < length argv \<and> vas' = - 1)
                  \<or> (j < length argv
                      \<and> parse_body Options argv j pos' (- 1) m' = Break_loop pos' vas' m')"
    by blast
  have rep: "m' = replay ws init" by (rule scan_replay [OF sc])
  then have untouched: "\<forall>f. f \<notin> fst ` set ws \<longrightarrow> m' f = init f"
    by (simp add: replay_untouched)
  show ?thesis
  proof (cases ro)
    case (Some r')
    with assms(1) loop have "r' = r" "mf = m'"
      by (simp_all add: parse_def parse_from_def)
    with Some out sc rep untouched show ?thesis by auto
  next
    case None
    with assms(1) loop have r: "r = checkRequired Options pos'"
      and mf: "mf = (if vas' \<ge> 0 then setVarArgs Options argv (nat vas') m' else m')"
      by (simp_all add: parse_def parse_from_def)
    from r assms(2) have err: "error r = MissingRequiredArg"
      by (auto simp: checkRequired_eq split: option.splits if_splits)
    from mf have frame: "\<forall>f. mf f \<noteq> m' f \<longrightarrow>
        hasVarArgs Options \<and> f = v_field (last (declared_varargs Options))"
      by (auto simp: setVarArgs_eq split: if_splits)
    from None out mf
    have ended: "(\<not> j < length argv \<and> mf = m')
                 \<or> (j < length argv
                     \<and> (\<exists>vas. parse_body Options argv j pos' (- 1) m' = Break_loop pos' vas m'
                           \<and> mf = (if 0 \<le> vas then setVarArgs Options argv (nat vas) m'
                                   else m')))"
      by auto
    from r err frame ended sc rep untouched show ?thesis by blast
  qed
qed

theorem fail_fast_no_rollback_witness:
  "parse SimpleOptions [''prog'', ''-v'', ''myname'', ''-c'', ''abc''] SimpleOptions_init
     = (failure InvalidValue ''-c'',
        SimpleOptions_init(0 := Value (BoolV True), 2 := Value (StringV ''myname'')))
   \<and> \<not> isOk (failure InvalidValue ''-c'')
   \<and> (\<exists>ws i pos m.
         scan SimpleOptions [''prog'', ''-v'', ''myname'', ''-c'', ''abc''] SimpleOptions_init
           ws i pos m
         \<and> m = replay ws SimpleOptions_init
         \<and> m = SimpleOptions_init(0 := Value (BoolV True), 2 := Value (StringV ''myname'')))
   \<and> parse SimpleOptions [''prog'', ''-v''] SimpleOptions_init
     = (failure MissingRequiredArg ''name'', SimpleOptions_init(0 := Value (BoolV True)))
   \<and> \<not> isOk (failure MissingRequiredArg ''name'')
   \<and> (\<exists>ws i pos m.
         scan SimpleOptions [''prog'', ''-v''] SimpleOptions_init ws i pos m
         \<and> m = replay ws SimpleOptions_init
         \<and> m = SimpleOptions_init(0 := Value (BoolV True)))"
proof -
  let ?argv = "[''prog'', ''-v'', ''myname'', ''-c'', ''abc'']"
  let ?m1 = "SimpleOptions_init(0 := Value (BoolV True))"
  let ?m2 = "SimpleOptions_init(0 := Value (BoolV True), 2 := Value (StringV ''myname''))"
  let ?v = "\<lparr>o_name = ''-v'', o_altName = ''--verbose'',
             o_description = ''Enable verbose output'', o_type = Direct Bool, o_field = 0\<rparr>"
  let ?c = "\<lparr>o_name = ''-c'', o_altName = ''--count'', o_description = ''Set count'',
             o_type = Direct (Integer True 32), o_field = 1\<rparr>"
  have n: "option_name ''-v'' = ''-v''" "inline_value ''-v'' = None"
    "option_name ''-c'' = ''-c''" "inline_value ''-c'' = None"
    by (simp_all add: option_name_def inline_value_def)
  have f: "first_match SimpleOptions ''-v'' = Some ?v" "first_match SimpleOptions ''-c'' = Some ?c"
    by (simp_all add: first_match_def SimpleOptions_def)
  have v: "ValueParser (Integer True 32) ''abc'' = None"
    by code_simp
  have a: "declared_args SimpleOptions =
             [\<lparr>a_name = ''name'', a_description = ''The name to use'',
               a_type = Direct StringView, a_field = 2\<rparr>]"
    by (simp add: SimpleOptions_def)
  have s1: "parse_from SimpleOptions ?argv 1 0 (- 1) SimpleOptions_init
              = parse_from SimpleOptions ?argv 2 0 (- 1) ?m1"
    by (subst parse_from_option [where arg = "''-v''"])
       (simp_all add: tryParseOption_matched n f numeral_2_eq_2)
  have s2: "parse_from SimpleOptions ?argv 2 0 (- 1) ?m1
              = parse_from SimpleOptions ?argv 3 1 (- 1) ?m2"
    by (subst parse_from_step)
       (simp_all add: parse_body_positional tryParsePositional_eq a numeral_2_eq_2
          numeral_3_eq_3)
  have s3: "parse_from SimpleOptions ?argv 3 1 (- 1) ?m2 = (failure InvalidValue ''-c'', ?m2)"
    by (subst parse_from_option [where arg = "''-c''"])
       (simp_all add: tryParseOption_matched n f v)
  have p: "parse SimpleOptions ?argv SimpleOptions_init = (failure InvalidValue ''-c'', ?m2)"
    by (simp only: parse_def s1 s2 s3)
  have e: "\<not> isOk (failure InvalidValue ''-c'')" by simp
  have nv: "\<not> hasVarArgs SimpleOptions"
    by (simp add: hasVarArgs_eq SimpleOptions_def)
  have same: "\<exists>ws i pos m. scan SimpleOptions argv SimpleOptions_init ws i pos m
                \<and> m = replay ws SimpleOptions_init \<and> m = mf"
    if "parse SimpleOptions argv SimpleOptions_init = (r, mf)" and "\<not> isOk r" for argv r mf
  proof -
    from fail_fast_no_rollback [OF that]
    obtain ws i pos m where sc: "scan SimpleOptions argv SimpleOptions_init ws i pos m"
      and rep: "m = replay ws SimpleOptions_init"
      and out: "mf = m
                \<or> (\<forall>f. mf f \<noteq> m f \<longrightarrow>
                      hasVarArgs SimpleOptions
                      \<and> f = v_field (last (declared_varargs SimpleOptions)))"
      by blast
    from out nv have "mf = m" by auto
    with sc rep show ?thesis by blast
  qed
  have q1: "parse_from SimpleOptions [''prog'', ''-v''] 1 0 (- 1) SimpleOptions_init
              = parse_from SimpleOptions [''prog'', ''-v''] 2 0 (- 1) ?m1"
    by (subst parse_from_option [where arg = "''-v''"])
       (simp_all add: tryParseOption_matched n f numeral_2_eq_2)
  have q2: "parse_from SimpleOptions [''prog'', ''-v''] 2 0 (- 1) ?m1
              = (failure MissingRequiredArg ''name'', ?m1)"
    by (simp add: parse_from_end checkRequired_eq first_unmet_def a)
  have q: "parse SimpleOptions [''prog'', ''-v''] SimpleOptions_init
             = (failure MissingRequiredArg ''name'', ?m1)"
    by (simp only: parse_def q1 q2)
  have e': "\<not> isOk (failure MissingRequiredArg ''name'')" by simp
  from same [OF p e] same [OF q e'] p e q e' show ?thesis by blast
qed

text \<open>
  C1. The check after the scan keeps the name of the first unmet required slot in
  \<^verbatim>\<open>missingArg\<close> and reports \<open>MissingRequiredArg\<close> when that string is not empty. For a
  required slot declared with the empty name the string stays empty: the slot is unmet
  and \<open>parse()\<close> succeeds.
\<close>

theorem required_slot_with_empty_name:
  "first_unmet
     [ArgD \<lparr>a_name = [], a_description = [], a_type = Direct StringView, a_field = 0\<rparr>] 0
     = Some \<lparr>a_name = [], a_description = [], a_type = Direct StringView, a_field = 0\<rparr>
   \<and> checkRequired
       [ArgD \<lparr>a_name = [], a_description = [], a_type = Direct StringView, a_field = 0\<rparr>] 0
     = success
   \<and> parse [ArgD \<lparr>a_name = [], a_description = [], a_type = Direct StringView, a_field = 0\<rparr>]
       [''prog''] m
     = (success, m)"
  by (simp add: parse_def parse_from_end checkRequired_eq first_unmet_def)

end
